theory Spec2Isabelle
  imports Main "HOL-Library.Word"
begin

unbundle bit_operations_syntax

section \<open>Collaborators of package reload\<close>

text \<open>
  The package (reload.go) uses three outside parties: the fsnotify watcher, the timers of
  Go's runtime and a handful of OS primitives. Each is given here by the part of its
  contract that the package relies on. Times are readings of the monotonic clock in
  nanoseconds, as \<open>time.Duration\<close> counts them.
\<close>

subsection \<open>Errors, panics and results\<close>

text \<open>
  An \<open>OSError\<close> is an error handed over by a collaborator; the other constructors are the
  wrappings that reload.go builds with \<open>fmt.Errorf\<close>, one per format string, holding the
  arguments of the format.
\<close>

datatype error =
    OSError string
  | CannotSetupWatcher error
  | CannotGetPathToBinary string error
  | CannotGetAbsolutePath string error
  | StatFailed error
  | NotADirectory string
  | CannotAddToWatcher string error

text \<open>
  The values a goroutine of the package can panic with: the two \<open>panic(fmt.Sprintf ...)\<close>
  of \<open>Exec\<close>, and the run-time panics of indexing \<open>os.Args\<close> and of calling a method on
  the nil timer that a missing map key yields.
\<close>

datatype panic =
    CannotFindSelf error
  | CannotRestart error
  | IndexOutOfRange
  | NilDereference

datatype 'a result = Ok 'a | Err error | Panic panic

subsection \<open>fsnotify events\<close>

type_synonym Op = "32 word"

definition Create :: Op where "Create = 1"
definition Write :: Op where "Write = 2"
definition Remove :: Op where "Remove = 4"
definition Rename :: Op where "Rename = 8"
definition Chmod :: Op where "Chmod = 16"

record Event =
  Name :: string
  Op :: Op

definition Has :: "Event \<Rightarrow> Op \<Rightarrow> bool" where
  "Has e h = (Op e AND h \<noteq> 0)"

subsection \<open>Timers\<close>

text \<open>
  A timer made by \<open>time.AfterFunc\<close> holds the function to run and, while it is pending,
  the instant at which it will run. \<open>Stop\<close> removes the pending instant, \<open>Reset\<close>
  replaces it. The functions a timer of this package runs are \<open>Exec\<close> and the callbacks of
  the additional directories, which are opaque and told apart by a number.
\<close>

datatype action = Restart | Callback nat

record Timer =
  timer_f :: action
  timer_when :: "nat option"

definition AfterFunc :: "nat \<Rightarrow> nat \<Rightarrow> action \<Rightarrow> Timer" where
  "AfterFunc now d fn = \<lparr>timer_f = fn, timer_when = Some (now + d)\<rparr>"

definition Stop :: "Timer \<Rightarrow> Timer" where
  "Stop t = t\<lparr>timer_when := None\<rparr>"

definition Reset :: "nat \<Rightarrow> nat \<Rightarrow> Timer \<Rightarrow> Timer" where
  "Reset now d t = t\<lparr>timer_when := Some (now + d)\<rparr>"

definition MaxInt64 :: nat where "MaxInt64 = 2 ^ 63 - 1"

definition Millisecond :: nat where "Millisecond = 1000000"

subsection \<open>Strings and paths\<close>

definition HasPrefix :: "string \<Rightarrow> string \<Rightarrow> bool" where
  "HasPrefix s p = (length p \<le> length s \<and> take (length p) s = p)"

definition TrimLeft :: "string \<Rightarrow> char \<Rightarrow> string" where
  "TrimLeft s c = dropWhile (\<lambda>x. x = c) s"

definition IsAbs :: "string \<Rightarrow> bool" where
  "IsAbs p = HasPrefix p ''/''"

subsection \<open>The operating system\<close>

text \<open>
  What the process reads from its surroundings and what the calls it makes answer. The
  image replacement \<open>syscall.Exec\<close> returns only when it fails: \<open>None\<close> is the
  replaced image.
\<close>

record os =
  os_Args :: "string list"
  os_Environ :: "string list"
  os_Executable :: "error + string"
  os_Getwd :: "error + string"
  os_Stat :: "string \<Rightarrow> error + bool"
  filepath_Abs :: "string \<Rightarrow> error + string"
  filepath_Dir :: "string \<Rightarrow> string"
  fsnotify_NewWatcher :: "error option"
  watcher_Add :: "string \<Rightarrow> error option"
  watcher_Close :: "error option"
  syscall_Exec :: "string \<Rightarrow> string list \<Rightarrow> string list \<Rightarrow> error option"

section \<open>The package\<close>

subsection \<open>State\<close>

text \<open>
  An unbuffered channel: a receive goes through when a sender is waiting or the channel
  has been closed, and blocks otherwise.
\<close>

record chan =
  senders :: nat
  closed :: bool

definition make_chan :: chan where
  "make_chan = \<lparr>senders = 0, closed = False\<rparr>"

definition recv :: "chan \<Rightarrow> bool option" where
  "recv c = (if 0 < senders c then Some True else if closed c then Some False else None)"

record dir =
  path :: string
  cb :: nat

text \<open>
  The package variables \<open>binSelf\<close>, \<open>closeWatcher\<close> and \<open>OnExec\<close> (the last two as
  "is not nil"), and the locals of \<open>Do\<close> that its goroutine captures.
\<close>

record state =
  binSelf :: string
  closeWatcher :: bool
  OnExec :: bool
  additional :: "dir list"
  timers :: "string \<rightharpoonup> Timer"
  done_chan :: chan

text \<open>The calls to collaborators that an execution makes, in the order it makes them.\<close>

datatype effect =
    NewWatcherCall
  | GoLoop
  | AddCall string
  | LogRestarting string "string list"
  | LogReloadError error
  | CloseCall "error option"
  | OnExecCall
  | SyscallExecCall string "string list" "string list"

subsection \<open>stoppedTimer, self, relpath\<close>

definition stoppedTimer :: "nat \<Rightarrow> action \<Rightarrow> Timer" where
  "stoppedTimer now fn = Stop (AfterFunc now MaxInt64 fn)"

definition self :: "os \<Rightarrow> string result" where
  "self os =
     (case os_Args os of
        [] \<Rightarrow> Panic IndexOutOfRange
      | bin # _ \<Rightarrow>
          if \<not> IsAbs bin then
            (case os_Executable os of
               Inl e \<Rightarrow> Err (CannotGetPathToBinary bin e)
             | Inr b \<Rightarrow> Ok b)
          else Ok bin)"

definition relpath :: "os \<Rightarrow> string \<Rightarrow> string" where
  "relpath os p =
     (case os_Getwd os of
        Inl e \<Rightarrow> p
      | Inr cwd \<Rightarrow>
          if HasPrefix p cwd then ''./'' @ TrimLeft (drop (length cwd) p) (CHR ''/'')
          else p)"

subsection \<open>Exec\<close>

datatype exec_outcome = Replaced | Panicked panic

text \<open>
  \<open>Exec\<close> gives the calls it made and how it ended. It never returns to its caller:
  \<open>syscall.Exec\<close> comes back only with an error, and then \<open>Exec\<close> panics.
\<close>

definition Exec :: "os \<Rightarrow> state \<Rightarrow> effect list \<times> exec_outcome" where
  "Exec os st =
     (case (if binSelf st = [] then self os else Ok (binSelf st)) of
        Panic p \<Rightarrow> ([], Panicked p)
      | Err e \<Rightarrow> ([], Panicked (CannotFindSelf e))
      | Ok execName \<Rightarrow>
          (let effs = (if closeWatcher st then [CloseCall (watcher_Close os)] else []) @
                      (if OnExec st then [OnExecCall] else [])
           in case os_Args os of
                [] \<Rightarrow> (effs, Panicked IndexOutOfRange)
              | _ # rest \<Rightarrow>
                  (let argv = execName # rest; env = os_Environ os
                   in (effs @ [SyscallExecCall execName argv env],
                       case syscall_Exec os execName argv env of
                         None \<Rightarrow> Replaced
                       | Some e \<Rightarrow> Panicked (CannotRestart e)))))"

subsection \<open>The body of the event case (lines 128 to 141)\<close>

text \<open>
  \<open>timers[k].Reset(100 * time.Millisecond)\<close>: a key that is not in the map yields the nil
  timer, and \<open>Reset\<close> on it panics; that is \<open>None\<close> here.
\<close>

definition Reset_at :: "nat \<Rightarrow> string \<Rightarrow> (string \<rightharpoonup> Timer) \<Rightarrow> (string \<rightharpoonup> Timer) option" where
  "Reset_at now k tm =
     (case tm k of
        None \<Rightarrow> None
      | Some t \<Rightarrow> Some (tm(k \<mapsto> Reset now (100 * Millisecond) t)))"

fun range_Reset :: "nat \<Rightarrow> string \<Rightarrow> dir list \<Rightarrow> (string \<rightharpoonup> Timer) \<Rightarrow> (string \<rightharpoonup> Timer) option" where
  "range_Reset now name [] tm = Some tm"
| "range_Reset now name (a # as) tm =
     (if HasPrefix name (path a) then
        (case Reset_at now (path a) tm of
           None \<Rightarrow> None
         | Some tm' \<Rightarrow> range_Reset now name as tm')
      else range_Reset now name as tm)"

definition trigger :: "Event \<Rightarrow> bool" where
  "trigger event = (Has event Write \<or> Has event Create)"

definition handle_event :: "nat \<Rightarrow> state \<Rightarrow> Event \<Rightarrow> state option" where
  "handle_event now st event =
     (if \<not> trigger event then Some st
      else
        (case (if Name event = binSelf st then Reset_at now (binSelf st) (timers st)
               else Some (timers st)) of
           None \<Rightarrow> None
         | Some tm1 \<Rightarrow>
             (case range_Reset now (Name event) (additional st) tm1 of
                None \<Rightarrow> None
              | Some tm2 \<Rightarrow> Some (st\<lparr>timers := tm2\<rparr>))))"

subsection \<open>Do, up to its last receive\<close>

text \<open>
  The loop over the additional directories (lines 93 to 112). The three accumulators are
  the slice \<open>additional\<close> with the paths made absolute so far, \<open>dirs\<close> and \<open>timers\<close>.
\<close>

fun range_additional ::
  "os \<Rightarrow> nat \<Rightarrow> dir list \<Rightarrow> dir list \<Rightarrow> string list \<Rightarrow> (string \<rightharpoonup> Timer) \<Rightarrow>
   error + (dir list \<times> string list \<times> (string \<rightharpoonup> Timer))" where
  "range_additional os now [] seen dirs tm = Inr (seen, dirs, tm)"
| "range_additional os now (a # as) seen dirs tm =
     (case filepath_Abs os (path a) of
        Inl e \<Rightarrow> Inl (CannotGetAbsolutePath (path a) e)
      | Inr p \<Rightarrow>
          (case os_Stat os p of
             Inl e \<Rightarrow> Inl (StatFailed e)
           | Inr isDir \<Rightarrow>
               if \<not> isDir then Inl (NotADirectory (path a))
               else range_additional os now as (seen @ [a\<lparr>path := p\<rparr>]) (dirs @ [p])
                      (tm(p \<mapsto> stoppedTimer now (Callback (cb a))))))"

text \<open>The loop over \<open>dirs\<close> (lines 146 to 150): the calls made and the first failure.\<close>

fun range_Add :: "os \<Rightarrow> string list \<Rightarrow> effect list \<times> error option" where
  "range_Add os [] = ([], None)"
| "range_Add os (d # ds) =
     (case watcher_Add os d of
        Some e \<Rightarrow> ([AddCall d], Some (CannotAddToWatcher d e))
      | None \<Rightarrow> (case range_Add os ds of (effs, r) \<Rightarrow> (AddCall d # effs, r)))"

text \<open>
  Where the calling goroutine of \<open>Do\<close> is once it can go no further by itself: it has
  returned an error, it has panicked, or it stands at \<open>\<leftarrow>done\<close>. The state given to
  \<open>Do\<close> holds the package variables as they are at the call; the parameter
  \<open>additional\<close> and the empty map \<open>timers\<close> are the locals it starts with.
\<close>

datatype main_at = Return error | Panics panic | AtDone

record do_main =
  at :: main_at
  calls :: "effect list"
  after :: state
  spawned :: bool

definition Do_main :: "os \<Rightarrow> nat \<Rightarrow> dir list \<Rightarrow> state \<Rightarrow> do_main" where
  "Do_main os now adds st0 =
     (let st = st0\<lparr>additional := adds, timers := Map.empty\<rparr> in
      case fsnotify_NewWatcher os of
        Some e \<Rightarrow> \<lparr>at = Return (CannotSetupWatcher e), calls = [NewWatcherCall],
                   after = st, spawned = False\<rparr>
      | None \<Rightarrow>
          (let st1 = st\<lparr>closeWatcher := True\<rparr> in
           case self os of
             Panic p \<Rightarrow> \<lparr>at = Panics p, calls = [NewWatcherCall], after = st1, spawned = False\<rparr>
           | Err e \<Rightarrow> \<lparr>at = Return e, calls = [NewWatcherCall],
                        after = st1\<lparr>binSelf := []\<rparr>, spawned = False\<rparr>
           | Ok b \<Rightarrow>
               (let st2 = st1\<lparr>binSelf := b\<rparr> in
                case range_additional os now adds [] [filepath_Dir os b]
                       [b \<mapsto> stoppedTimer now Restart] of
                  Inl e \<Rightarrow> \<lparr>at = Return e, calls = [NewWatcherCall], after = st2, spawned = False\<rparr>
                | Inr (adds', dirs, tm) \<Rightarrow>
                    (let st3 = st2\<lparr>additional := adds', timers := tm, done_chan := make_chan\<rparr> in
                     case range_Add os dirs of
                       (effs, Some e) \<Rightarrow>
                         \<lparr>at = Return e, calls = [NewWatcherCall, GoLoop] @ effs,
                          after = st3, spawned = True\<rparr>
                     | (effs, None) \<Rightarrow>
                         \<lparr>at = AtDone,
                          calls = [NewWatcherCall, GoLoop] @ effs @
                                  [LogRestarting (relpath os b) (map (relpath os) (tl dirs))],
                          after = st3, spawned = True\<rparr>))))"

subsection \<open>The goroutine and the timers\<close>

text \<open>
  What one \<open>select\<close> of the goroutine can receive: an error or an event, or the news that
  one of the two channels is closed. A run of the process is driven by the list of what
  the goroutine receives, each with the instant of its arrival, in the order of arrival.
\<close>

datatype item = ErrorsRecv error | ErrorsClosed | EventsRecv Event | EventsClosed

datatype loop_status = NotStarted | Running | Exited

datatype proc = Alive | Ended nat exec_outcome

record config =
  cfg_state :: state
  loop :: loop_status
  process :: proc
  fired :: "(nat \<times> string \<times> action) list"
  effects :: "effect list"

text \<open>The keys of the timer map, as \<open>Do\<close> fills it, and the timers that are pending.\<close>

definition keys :: "state \<Rightarrow> string list" where
  "keys st = remdups (binSelf st # map path (additional st))"

definition pending_at :: "state \<Rightarrow> string \<Rightarrow> (nat \<times> string \<times> action) option" where
  "pending_at st k =
     (case timers st k of
        None \<Rightarrow> None
      | Some t \<Rightarrow> (case timer_when t of None \<Rightarrow> None | Some d \<Rightarrow> Some (d, k, timer_f t)))"

definition pending :: "state \<Rightarrow> (nat \<times> string \<times> action) list" where
  "pending st = List.map_filter (pending_at st) (keys st)"

definition due :: "nat \<Rightarrow> state \<Rightarrow> (nat \<times> string \<times> action) list" where
  "due t st = filter (\<lambda>(d, k, fn). d \<le> t) (pending st)"

text \<open>
  The earliest instant, up to \<open>t\<close>, at which a timer that runs \<open>Exec\<close> is due. The process
  ends there, so timers due later than that never run.
\<close>

definition restart_at :: "nat \<Rightarrow> state \<Rightarrow> nat option" where
  "restart_at t st =
     (case filter (\<lambda>(d, k, fn). fn = Restart) (due t st) of
        [] \<Rightarrow> None
      | (d, k, fn) # rs \<Rightarrow> Some (fold min (map fst rs) d))"

definition expire :: "nat \<Rightarrow> (string \<rightharpoonup> Timer) \<Rightarrow> (string \<rightharpoonup> Timer)" where
  "expire lim tm =
     (\<lambda>k. case tm k of
            None \<Rightarrow> None
          | Some t \<Rightarrow>
              (case timer_when t of
                 None \<Rightarrow> Some t
               | Some d \<Rightarrow> if d \<le> lim then Some (t\<lparr>timer_when := None\<rparr>) else Some t))"

text \<open>
  Letting time pass until \<open>t\<close>: every pending timer whose instant has come runs its
  function, each at its own instant, and is pending no more. A timer that runs \<open>Exec\<close>
  ends the process at its instant.
\<close>

definition advance :: "os \<Rightarrow> nat \<Rightarrow> config \<Rightarrow> config" where
  "advance os t c =
     (if process c \<noteq> Alive then c
      else
        (let st = cfg_state c in
         case restart_at t st of
           None \<Rightarrow>
             c\<lparr>cfg_state := st\<lparr>timers := expire t (timers st)\<rparr>,
               fired := fired c @ due t st\<rparr>
         | Some r \<Rightarrow>
             (case Exec os st of
                (effs, out) \<Rightarrow>
                  c\<lparr>cfg_state := st\<lparr>timers := expire r (timers st)\<rparr>,
                    fired := fired c @ due r st,
                    effects := effects c @ effs,
                    process := Ended r out\<rparr>)))"

text \<open>One turn of the goroutine's \<open>for\<close> loop, for what its \<open>select\<close> received.\<close>

definition receive :: "nat \<Rightarrow> item \<Rightarrow> config \<Rightarrow> config" where
  "receive t it c =
     (case it of
        ErrorsClosed \<Rightarrow> c\<lparr>loop := Exited\<rparr>
      | EventsClosed \<Rightarrow> c\<lparr>loop := Exited\<rparr>
      | ErrorsRecv e \<Rightarrow> c\<lparr>effects := effects c @ [LogReloadError e]\<rparr>
      | EventsRecv event \<Rightarrow>
          (case handle_event t (cfg_state c) event of
             None \<Rightarrow> c\<lparr>process := Ended t (Panicked NilDereference)\<rparr>
           | Some st' \<Rightarrow> c\<lparr>cfg_state := st'\<rparr>))"

fun run :: "os \<Rightarrow> config \<Rightarrow> (nat \<times> item) list \<Rightarrow> config" where
  "run os c [] = c"
| "run os c ((t, it) # rest) =
     (let c1 = advance os t c
      in if process c1 = Alive \<and> loop c1 = Running then run os (receive t it c1) rest
         else run os c1 rest)"

subsection \<open>Do as a whole\<close>

text \<open>
  \<open>Do\<close> run against what its goroutine receives, watched until the instant \<open>T\<close>. The last
  statement of \<open>Do\<close> before \<open>return nil\<close> is a receive on \<open>done\<close>.
\<close>

datatype do_status = Returned "error option" | DoPanicked panic | BlockedAtDone

record do_run =
  status :: do_status
  main_calls :: "effect list"
  final :: config

definition Do :: "os \<Rightarrow> nat \<Rightarrow> dir list \<Rightarrow> state \<Rightarrow> (nat \<times> item) list \<Rightarrow> nat \<Rightarrow> do_run" where
  "Do os now adds st0 stream T =
     (let m = Do_main os now adds st0;
          c0 = \<lparr>cfg_state = after m, loop = (if spawned m then Running else NotStarted),
                process = Alive, fired = [], effects = []\<rparr>;
          c = advance os T (run os c0 stream)
      in \<lparr>status =
            (case at m of
               Return e \<Rightarrow> Returned (Some e)
             | Panics p \<Rightarrow> DoPanicked p
             | AtDone \<Rightarrow>
                 (case recv (done_chan (cfg_state c)) of
                    None \<Rightarrow> BlockedAtDone
                  | Some b \<Rightarrow> Returned None)),
          main_calls = calls m,
          final = c\<rparr>)"

section \<open>Notions used in the statements\<close>

subsection \<open>Which timers an event re-arms\<close>

text \<open>
  Every key that the event case looks up has a timer: \<open>binSelf\<close> and the path of every
  additional directory. \<open>Do\<close> establishes this before it starts the goroutine, and then
  no \<open>Reset\<close> meets the nil timer.
\<close>

definition covered :: "state \<Rightarrow> bool" where
  "covered st = (binSelf st \<in> dom (timers st) \<and> (\<forall>a \<in> set (additional st). path a \<in> dom (timers st)))"

text \<open>
  The two tests of the event case, as a property of a key \<open>k\<close> of the timer map: the
  event is named like the executable and \<open>k\<close> is the executable, or \<open>k\<close> is the path
  of an additional directory that is a prefix of the event's name.
\<close>

definition matches :: "string \<Rightarrow> dir list \<Rightarrow> Event \<Rightarrow> string \<Rightarrow> bool" where
  "matches b as event k =
     ((k = b \<and> Name event = b) \<or>
      (\<exists>a \<in> set as. path a = k \<and> HasPrefix (Name event) (path a)))"

text \<open>
  \<open>Reset\<close> with the delay of 100 ms on every timer whose key satisfies \<open>P\<close>.
\<close>

definition rearm :: "nat \<Rightarrow> (string \<Rightarrow> bool) \<Rightarrow> (string \<rightharpoonup> Timer) \<Rightarrow> (string \<rightharpoonup> Timer)" where
  "rearm now P tm = (\<lambda>k. if P k then map_option (Reset now (100 * Millisecond)) (tm k) else tm k)"

text \<open>
  The function that the timer at key \<open>p\<close> runs.
\<close>

definition fn_of :: "state \<Rightarrow> string \<Rightarrow> action" where
  "fn_of st p = timer_f (the (timers st p))"

subsection \<open>What has fired, by key\<close>

text \<open>
  The entries of a list of (instant, key, function) that belong to the key \<open>p\<close>.
\<close>

definition on_key :: "string \<Rightarrow> (nat \<times> string \<times> action) list \<Rightarrow> (nat \<times> string \<times> action) list" where
  "on_key p xs = filter (\<lambda>(d, k, fn). k = p) xs"

subsection \<open>Bursts\<close>

text \<open>
  Instants in the order of arrival, each less than \<open>d\<close> after the one before it.
\<close>

fun spaced :: "nat \<Rightarrow> nat list \<Rightarrow> bool" where
  "spaced d [] = True"
| "spaced d [t] = True"
| "spaced d (t # t' # ts) = (t \<le> t' \<and> t' < t + d \<and> spaced d (t' # ts))"

text \<open>
  Timed events as what the goroutine receives on \<open>watcher.Events\<close>.
\<close>

definition events_of :: "(nat \<times> Event) list \<Rightarrow> (nat \<times> item) list" where
  "events_of evs = map (\<lambda>(t, e). (t, EventsRecv e)) evs"

text \<open>
  A burst on the watched path \<open>p\<close>: some events, each less than 100 ms after the one
  before, each a write or a create that the event case matches with \<open>p\<close>.
\<close>

definition burst_on :: "string \<Rightarrow> dir list \<Rightarrow> string \<Rightarrow> (nat \<times> Event) list \<Rightarrow> bool" where
  "burst_on b as p evs =
     (evs \<noteq> [] \<and> spaced (100 * Millisecond) (map fst evs) \<and>
      (\<forall>(t, e) \<in> set evs. trigger e \<and> matches b as e p))"

subsection \<open>Invariants of a run\<close>

text \<open>
  What holds of the state all through a burst on \<open>p\<close>: every key looked up has a timer,
  \<open>p\<close> is such a key, the only timer that runs \<open>Exec\<close> is the one at \<open>binSelf\<close> and
  then no additional directory has that path, and no timer that runs \<open>Exec\<close> is pending
  unless it is the one at \<open>p\<close>.
\<close>

definition good :: "string \<Rightarrow> state \<Rightarrow> bool" where
  "good p st =
     (covered st \<and> p \<in> set (keys st) \<and>
      (\<forall>k t. timers st k = Some t \<longrightarrow> timer_f t = Restart \<longrightarrow> k = binSelf st) \<and>
      (\<forall>k t a. timers st k = Some t \<longrightarrow> timer_f t = Restart \<longrightarrow> a \<in> set (additional st) \<longrightarrow>
             path a \<noteq> k) \<and>
      (\<forall>k t d. timers st k = Some t \<longrightarrow> timer_f t = Restart \<longrightarrow> timer_when t = Some d \<longrightarrow> k = p))"

text \<open>
  The timer at \<open>p\<close> is not due at the instant \<open>t\<close>.
\<close>

definition quiet :: "string \<Rightarrow> nat \<Rightarrow> state \<Rightarrow> bool" where
  "quiet p t st = (case pending_at st p of None \<Rightarrow> True | Some (d, k, fn) \<Rightarrow> t < d)"

text \<open>
  What the loop over the additional directories keeps true of the timer map: the
  executable and every directory seen so far have a timer, every timer is stopped, the
  only timer that runs \<open>Exec\<close> is at \<open>b\<close>, and the timers of the directories run
  callbacks.
\<close>

definition init_ok :: "string \<Rightarrow> dir list \<Rightarrow> (string \<rightharpoonup> Timer) \<Rightarrow> bool" where
  "init_ok b seen tm =
     (b \<in> dom tm \<and> (\<forall>a \<in> set seen. path a \<in> dom tm) \<and>
      (\<forall>k t. tm k = Some t \<longrightarrow> timer_when t = None) \<and>
      (\<forall>k t. tm k = Some t \<longrightarrow> timer_f t = Restart \<longrightarrow> k = b) \<and>
      (\<forall>k t a. tm k = Some t \<longrightarrow> timer_f t = Restart \<longrightarrow> a \<in> set seen \<longrightarrow> path a \<noteq> k) \<and>
      (\<forall>a \<in> set seen. \<exists>t n. tm (path a) = Some t \<and> (timer_f t = Callback n)))"

text \<open>
  Two states with the same executable, the same additional directories and, key by key,
  timers that run the same function: only the pending instants may differ. This is all
  that a run of the goroutine and the passing of time change.
\<close>

definition same_fns :: "state \<Rightarrow> state \<Rightarrow> bool" where
  "same_fns st st' =
     (binSelf st' = binSelf st \<and> additional st' = additional st \<and>
      (\<forall>k. map_option timer_f (timers st' k) = map_option timer_f (timers st k)))"

text \<open>
  What holds of the timers from the moment \<open>Do\<close> starts the goroutine, whatever is
  pending: every key looked up has a timer, the only timer that runs \<open>Exec\<close> is the one
  at \<open>binSelf\<close>, and then no additional directory has that path.
\<close>

definition sound :: "state \<Rightarrow> bool" where
  "sound st =
     (covered st \<and>
      (\<forall>k t. timers st k = Some t \<longrightarrow> timer_f t = Restart \<longrightarrow> k = binSelf st) \<and>
      (\<forall>k t a. timers st k = Some t \<longrightarrow> timer_f t = Restart \<longrightarrow> a \<in> set (additional st) \<longrightarrow>
             path a \<noteq> k))"

subsection \<open>Inputs that Do rejects\<close>

text \<open>
  An additional directory that lines 94 to 107 refuse: its path cannot be made absolute,
  \<open>os.Stat\<close> of the absolute path fails, or the path is not a directory.
\<close>

definition invalid_dir :: "os \<Rightarrow> dir \<Rightarrow> bool" where
  "invalid_dir os a =
     ((\<exists>e. filepath_Abs os (path a) = Inl e) \<or>
      (\<exists>p e. filepath_Abs os (path a) = Inr p \<and> os_Stat os p = Inl e) \<or>
      (\<exists>p. filepath_Abs os (path a) = Inr p \<and> os_Stat os p = Inr False))"

text \<open>
  The three errors that the loop over the additional directories returns.
\<close>

definition ConfigurationError :: "error \<Rightarrow> bool" where
  "ConfigurationError e =
     (case e of
        CannotGetAbsolutePath p c \<Rightarrow> True
      | StatFailed c \<Rightarrow> True
      | NotADirectory p \<Rightarrow> True
      | _ \<Rightarrow> False)"

subsection \<open>Concrete runs\<close>

text \<open>
  A process started as \<open>/srv/app -v\<close>, with a directory \<open>/a/tpl\<close> and a regular file
  \<open>/srv/main.go\<close> on disk, where every call to a collaborator succeeds. The others below
  differ from it in one respect each.
\<close>

definition os_ex :: os where
  "os_ex = \<lparr>os_Args = [''/srv/app'', ''-v''], os_Environ = [''HOME=/root''],
            os_Executable = Inr ''/srv/app'', os_Getwd = Inr ''/srv'',
            os_Stat = (\<lambda>p. if p = ''/a/tpl'' then Inr True
                           else if p = ''/srv/main.go'' then Inr False
                           else Inl (OSError ''no such file or directory'')),
            filepath_Abs = (\<lambda>p. Inr p), filepath_Dir = (\<lambda>p. ''/srv''),
            fsnotify_NewWatcher = None, watcher_Add = (\<lambda>d. None), watcher_Close = None,
            syscall_Exec = (\<lambda>n a e. None)\<rparr>"

definition st_ex :: state where
  "st_ex = \<lparr>binSelf = [], closeWatcher = False, OnExec = False, additional = [],
            timers = Map.empty, done_chan = make_chan\<rparr>"

definition tpl :: dir where "tpl = \<lparr>path = ''/a/tpl'', cb = 7\<rparr>"

definition write_app :: Event where "write_app = \<lparr>Name = ''/srv/app'', Op = Write\<rparr>"

definition ready :: state where "ready = after (Do_main os_ex 0 [tpl] st_ex)"

definition os_in :: os where
  "os_in = os_ex\<lparr>os_Args := [''/a/tpl/app''], os_Executable := Inr ''/a/tpl/app'',
                  filepath_Dir := (\<lambda>p. ''/a/tpl'')\<rparr>"

definition write_in :: Event where "write_in = \<lparr>Name = ''/a/tpl/app'', Op = Write\<rparr>"

definition write_x :: Event where "write_x = \<lparr>Name = ''/a/tpl/x'', Op = Write\<rparr>"

definition create_near :: Event where "create_near = \<lparr>Name = ''/a/tplX/f'', Op = Create\<rparr>"

definition other_kinds :: Event where
  "other_kinds = \<lparr>Name = ''/srv/app'', Op = Remove OR Rename OR Chmod\<rparr>"

definition os_full :: os where
  "os_full = os_ex\<lparr>watcher_Add := (\<lambda>d. if d = ''/a/tpl'' then Some (OSError ''no space left on device'') else None)\<rparr>"

definition os_limit :: os where
  "os_limit = os_ex\<lparr>watcher_Add := (\<lambda>d. Some (OSError ''too many open files''))\<rparr>"

definition missing :: dir where "missing = \<lparr>path = ''/srv/static'', cb = 3\<rparr>"

definition os_rel :: os where
  "os_rel = os_ex\<lparr>os_Args := [''app''], os_Executable := Inl (OSError ''readlink /proc/self/exe: permission denied'')\<rparr>"

definition os_noexec :: os where
  "os_noexec = os_ex\<lparr>syscall_Exec := (\<lambda>n a e. Some (OSError ''exec format error''))\<rparr>"

definition hooked :: state where
  "hooked = ready\<lparr>OnExec := True\<rparr>"

section \<open>The event case\<close>

lemma Reset_at_rearm:
  "k \<in> dom tm \<Longrightarrow> Reset_at now k tm = Some (rearm now (\<lambda>x. x = k) tm)"
  by (auto simp: Reset_at_def rearm_def fun_eq_iff)

lemma Reset_idem: "Reset now d (Reset now d t) = Reset now d t"
  by (simp add: Reset_def)

lemma rearm_rearm: "rearm now P (rearm now Q tm) = rearm now (\<lambda>k. P k \<or> Q k) tm"
  by (auto simp: rearm_def fun_eq_iff Reset_idem option.map_comp comp_def split: option.splits)

lemma dom_rearm [simp]: "dom (rearm now P tm) = dom tm"
  by (auto simp: rearm_def dom_def split: if_splits)

lemma range_Reset_rearm:
  "\<forall>a \<in> set as. path a \<in> dom tm \<Longrightarrow>
   range_Reset now name as tm =
     Some (rearm now (\<lambda>k. \<exists>a \<in> set as. path a = k \<and> HasPrefix name (path a)) tm)"
proof (induction as arbitrary: tm)
  case Nil
  then show ?case by (simp add: rearm_def)
next
  case (Cons a as)
  show ?case
  proof (cases "HasPrefix name (path a)")
    case True
    have "path a \<in> dom tm" using Cons.prems by simp
    then have r: "Reset_at now (path a) tm = Some (rearm now (\<lambda>x. x = path a) tm)"
      by (rule Reset_at_rearm)
    have "\<forall>b \<in> set as. path b \<in> dom (rearm now (\<lambda>x. x = path a) tm)"
      using Cons.prems by simp
    from Cons.IH [OF this] show ?thesis
      using True r by (auto simp: rearm_rearm intro!: arg_cong2 [where f = "rearm now"])
  next
    case False
    have "\<forall>b \<in> set as. path b \<in> dom tm" using Cons.prems by simp
    from Cons.IH [OF this] show ?thesis
      using False by (auto intro!: arg_cong2 [where f = "rearm now"])
  qed
qed

lemma handle_event_rearm:
  assumes "covered st" and "trigger event"
  shows "handle_event now st event = Some (st\<lparr>timers := rearm now (matches (binSelf st) (additional st) event) (timers st)\<rparr>)"
proof (cases "Name event = binSelf st")
  case True
  have 1: "Reset_at now (binSelf st) (timers st) = Some (rearm now (\<lambda>x. x = binSelf st) (timers st))"
    using assms(1) by (intro Reset_at_rearm) (simp add: covered_def)
  have 2: "\<forall>a \<in> set (additional st). path a \<in> dom (rearm now (\<lambda>x. x = binSelf st) (timers st))"
    using assms(1) by (simp add: covered_def)
  have 3: "(\<lambda>k. (\<exists>a \<in> set (additional st). path a = k \<and> HasPrefix (binSelf st) (path a)) \<or> k = binSelf st)
           = matches (binSelf st) (additional st) event"
    using True by (auto simp: matches_def fun_eq_iff)
  show ?thesis
    using assms(2) True 1 range_Reset_rearm [OF 2, of now "Name event"]
    by (simp add: handle_event_def rearm_rearm 3)
next
  case False
  have 2: "\<forall>a \<in> set (additional st). path a \<in> dom (timers st)"
    using assms(1) by (simp add: covered_def)
  have 3: "(\<lambda>k. \<exists>a \<in> set (additional st). path a = k \<and> HasPrefix (Name event) (path a))
           = matches (binSelf st) (additional st) event"
    using False by (auto simp: matches_def fun_eq_iff)
  show ?thesis
    using assms(2) False range_Reset_rearm [OF 2, of now "Name event"]
    by (simp add: handle_event_def 3)
qed

lemma handle_event_ignored: "\<not> trigger event \<Longrightarrow> handle_event now st event = Some st"
  by (simp add: handle_event_def)

section \<open>Pending timers, by key\<close>

lemma on_key_append [simp]: "on_key p (xs @ ys) = on_key p xs @ on_key p ys"
  by (simp add: on_key_def)

lemma on_key_Nil [simp]: "on_key p [] = []"
  by (simp add: on_key_def)

lemma pending_at_key: "pending_at st k = Some (d, k', fn) \<Longrightarrow> k' = k"
  by (auto simp: pending_at_def split: option.splits)

lemma on_key_map_filter:
  "distinct ks \<Longrightarrow>
   on_key p (List.map_filter (pending_at st) ks) =
     (if p \<in> set ks then (case pending_at st p of None \<Rightarrow> [] | Some x \<Rightarrow> [x]) else [])"
proof (induction ks)
  case Nil
  then show ?case by (simp add: List.map_filter_simps)
next
  case (Cons k ks)
  then show ?case
    by (auto simp: List.map_filter_simps on_key_def split: option.splits dest: pending_at_key)
qed

lemma on_key_pending_None:
  "pending_at st p = None \<Longrightarrow> on_key p (pending st) = []"
  unfolding pending_def
  by (subst on_key_map_filter) (simp_all add: keys_def)

lemma on_key_pending_Some:
  "pending_at st p = Some x \<Longrightarrow> p \<in> set (keys st) \<Longrightarrow> on_key p (pending st) = [x]"
  unfolding pending_def
  by (subst on_key_map_filter) (simp_all add: keys_def)

lemma on_key_due:
  "on_key p (due t st) = filter (\<lambda>(d, k, fn). d \<le> t) (on_key p (pending st))"
  by (auto simp: due_def on_key_def intro: filter_cong)

lemma on_key_due_None:
  "pending_at st p = None \<Longrightarrow> on_key p (due t st) = []"
  by (simp only: on_key_due on_key_pending_None filter.simps)

lemma on_key_pending_notin:
  "p \<notin> set (keys st) \<Longrightarrow> on_key p (pending st) = []"
  unfolding pending_def
  by (subst on_key_map_filter) (simp_all add: keys_def)

lemma on_key_due_later:
  assumes "pending_at st p = Some (d, k, fn)" and "t < d"
  shows "on_key p (due t st) = []"
proof (cases "p \<in> set (keys st)")
  case True
  with assms show ?thesis by (simp add: on_key_due on_key_pending_Some)
next
  case False
  then show ?thesis by (simp add: on_key_due on_key_pending_notin)
qed

lemma on_key_due_now:
  "pending_at st p = Some (d, k, fn) \<Longrightarrow> p \<in> set (keys st) \<Longrightarrow> d \<le> t \<Longrightarrow>
   on_key p (due t st) = [(d, k, fn)]"
  by (simp add: on_key_due on_key_pending_Some)

lemma pending_mem:
  "(d, k, fn) \<in> set (pending st) \<Longrightarrow> \<exists>t. timers st k = Some t \<and> timer_when t = Some d \<and> timer_f t = fn"
  by (auto simp: pending_def List.map_filter_def pending_at_def split: option.splits)

section \<open>Letting time pass while a timer is not due\<close>

lemma restart_at_quiet:
  assumes "good p st" and "quiet p t st"
  shows "restart_at t st = None"
proof -
  have "filter (\<lambda>(d, k, fn). fn = Restart) (due t st) = []"
  proof (rule ccontr)
    assume "filter (\<lambda>(d, k, fn). fn = Restart) (due t st) \<noteq> []"
    then obtain d k where m: "(d, k, Restart) \<in> set (pending st)" and le: "d \<le> t"
      by (auto simp: filter_empty_conv due_def)
    from pending_mem [OF m] obtain tmr where
      tmr: "timers st k = Some tmr" "timer_when tmr = Some d" "timer_f tmr = Restart"
      by blast
    with assms(1) have "k = p" by (auto simp: good_def)
    with tmr have "pending_at st p = Some (d, p, Restart)" by (simp add: pending_at_def)
    with assms(2) le show False by (simp add: quiet_def)
  qed
  then show ?thesis by (simp add: restart_at_def)
qed

lemma on_key_due_quiet:
  assumes "quiet p t st"
  shows "on_key p (due t st) = []"
proof (cases "pending_at st p")
  case None
  then show ?thesis by (rule on_key_due_None)
next
  case (Some x)
  obtain d k fn where x: "x = (d, k, fn)" by (cases x)
  with Some assms have "t < d" by (simp add: quiet_def)
  with Some x show ?thesis by (simp add: on_key_due_later)
qed

lemma expire_quiet: "quiet p t st \<Longrightarrow> expire t (timers st) p = timers st p"
  by (auto simp: expire_def quiet_def pending_at_def split: option.splits)

lemma dom_expire [simp]: "dom (expire t tm) = dom tm"
  by (auto simp: expire_def dom_def split: option.splits)

lemma expire_Some:
  "expire lim tm k = Some t \<Longrightarrow>
   \<exists>t0. tm k = Some t0 \<and> timer_f t = timer_f t0 \<and> (timer_when t = None \<or> timer_when t = timer_when t0)"
  by (auto simp: expire_def split: option.splits if_splits)

lemma keys_timers [simp]: "keys (st\<lparr>timers := tm\<rparr>) = keys st"
  by (simp add: keys_def)

lemma good_expire:
  assumes "good p st"
  shows "good p (st\<lparr>timers := expire lim (timers st)\<rparr>)"
proof -
  have a: "\<forall>k t. expire lim (timers st) k = Some t \<longrightarrow> timer_f t = Restart \<longrightarrow> k = binSelf st"
  proof (intro allI impI)
    fix k t assume "expire lim (timers st) k = Some t" and r: "timer_f t = Restart"
    from expire_Some [OF this(1)] obtain t0 where
      "timers st k = Some t0" "timer_f t = timer_f t0" by blast
    with r assms show "k = binSelf st"
      unfolding good_def by metis
  qed
  have a': "\<forall>k t a. expire lim (timers st) k = Some t \<longrightarrow> timer_f t = Restart \<longrightarrow>
              a \<in> set (additional st) \<longrightarrow> path a \<noteq> k"
  proof (intro allI impI)
    fix k t a
    assume "expire lim (timers st) k = Some t" and r: "timer_f t = Restart"
      and m: "a \<in> set (additional st)"
    from expire_Some [OF this(1)] obtain t0 where
      "timers st k = Some t0" "timer_f t = timer_f t0" by blast
    with r m assms show "path a \<noteq> k"
      unfolding good_def by metis
  qed
  have b: "\<forall>k t d. expire lim (timers st) k = Some t \<longrightarrow> timer_f t = Restart \<longrightarrow>
             timer_when t = Some d \<longrightarrow> k = p"
  proof (intro allI impI)
    fix k t d
    assume "expire lim (timers st) k = Some t" and r: "timer_f t = Restart"
      and w: "timer_when t = Some d"
    from expire_Some [OF this(1)] obtain t0 where
      "timers st k = Some t0" "timer_f t = timer_f t0"
      "timer_when t = None \<or> timer_when t = timer_when t0" by blast
    with r w assms show "k = p"
      unfolding good_def by (metis option.distinct(1))
  qed
  have c: "covered (st\<lparr>timers := expire lim (timers st)\<rparr>)"
    using assms by (simp add: good_def covered_def)
  have d: "p \<in> set (keys st)" using assms by (simp add: good_def)
  show ?thesis
    unfolding good_def using a a' b c d by simp
qed

section \<open>One event of a burst\<close>

lemma advance_quiet:
  assumes "good p (cfg_state c)" and "quiet p t (cfg_state c)" and "process c = Alive"
  shows "advance os t c =
           c\<lparr>cfg_state := (cfg_state c)\<lparr>timers := expire t (timers (cfg_state c))\<rparr>,
             fired := fired c @ due t (cfg_state c)\<rparr>"
  using assms(3) restart_at_quiet [OF assms(1,2)] by (simp add: advance_def Let_def)

lemma rearm_Some:
  "rearm now P tm k = Some t \<Longrightarrow>
   \<exists>t0. tm k = Some t0 \<and> timer_f t = timer_f t0 \<and>
        (if P k then timer_when t = Some (now + 100 * Millisecond) else timer_when t = timer_when t0)"
  by (auto simp: rearm_def Reset_def split: if_splits)

lemma good_rearm:
  assumes g: "good p st" and h: "p = binSelf st \<or> Name e \<noteq> binSelf st"
  shows "good p (st\<lparr>timers := rearm now (matches (binSelf st) (additional st) e) (timers st)\<rparr>)"
proof -
  let ?tm = "rearm now (matches (binSelf st) (additional st) e) (timers st)"
  have a: "\<forall>k t. ?tm k = Some t \<longrightarrow> timer_f t = Restart \<longrightarrow> k = binSelf st"
  proof (intro allI impI)
    fix k t assume "?tm k = Some t" and r: "timer_f t = Restart"
    from rearm_Some [OF this(1)] obtain t0 where
      "timers st k = Some t0" "timer_f t = timer_f t0" by blast
    with r g show "k = binSelf st" unfolding good_def by metis
  qed
  have a': "\<forall>k t a. ?tm k = Some t \<longrightarrow> timer_f t = Restart \<longrightarrow>
              a \<in> set (additional st) \<longrightarrow> path a \<noteq> k"
  proof (intro allI impI)
    fix k t a
    assume "?tm k = Some t" and r: "timer_f t = Restart" and m: "a \<in> set (additional st)"
    from rearm_Some [OF this(1)] obtain t0 where
      "timers st k = Some t0" "timer_f t = timer_f t0" by blast
    with r m g show "path a \<noteq> k" unfolding good_def by metis
  qed
  have b: "\<forall>k t d. ?tm k = Some t \<longrightarrow> timer_f t = Restart \<longrightarrow> timer_when t = Some d \<longrightarrow> k = p"
  proof (intro allI impI)
    fix k t d
    assume s: "?tm k = Some t" and r: "timer_f t = Restart" and w: "timer_when t = Some d"
    from rearm_Some [OF s] obtain t0 where
      t0: "timers st k = Some t0" "timer_f t = timer_f t0"
      and i: "if matches (binSelf st) (additional st) e k
              then timer_when t = Some (now + 100 * Millisecond) else timer_when t = timer_when t0"
      by blast
    have kb: "k = binSelf st" using t0 r g unfolding good_def by metis
    have na: "\<forall>a \<in> set (additional st). path a \<noteq> k"
      using t0 r g unfolding good_def by metis
    show "k = p"
    proof (cases "matches (binSelf st) (additional st) e k")
      case True
      with na have "Name e = binSelf st" by (auto simp: matches_def)
      with h kb show ?thesis by simp
    next
      case False
      with i w have "timer_when t0 = Some d" by simp
      with t0 r g show ?thesis unfolding good_def by metis
    qed
  qed
  have c: "covered (st\<lparr>timers := ?tm\<rparr>)"
    using g by (simp add: good_def covered_def)
  have d: "p \<in> set (keys st)" using g by (simp add: good_def)
  show ?thesis
    unfolding good_def using a a' b c d by simp
qed

lemma set_keys: "set (keys st) = insert (binSelf st) (path ` set (additional st))"
  unfolding keys_def set_remdups by simp

lemma good_timer:
  assumes "good p st"
  shows "\<exists>t0. timers st p = Some t0"
proof -
  have "p \<in> insert (binSelf st) (path ` set (additional st))"
    using assms by (simp add: good_def set_keys)
  moreover have "binSelf st \<in> dom (timers st)" "\<forall>a \<in> set (additional st). path a \<in> dom (timers st)"
    using assms by (simp_all add: good_def covered_def)
  ultimately have "p \<in> dom (timers st)" by blast
  then show ?thesis by blast
qed

lemma step_burst:
  assumes g: "good p (cfg_state c)" and q: "quiet p t (cfg_state c)"
    and al: "process c = Alive" and lo: "loop c = Running"
    and tr: "trigger e" and m: "matches (binSelf (cfg_state c)) (additional (cfg_state c)) e p"
    and h: "p = binSelf (cfg_state c) \<or> Name e \<noteq> binSelf (cfg_state c)"
  shows "\<exists>c'. (let c1 = advance os t c
               in if process c1 = Alive \<and> loop c1 = Running then receive t (EventsRecv e) c1 else c1) = c' \<and>
           process c' = Alive \<and> loop c' = Running \<and>
           binSelf (cfg_state c') = binSelf (cfg_state c) \<and>
           additional (cfg_state c') = additional (cfg_state c) \<and>
           done_chan (cfg_state c') = done_chan (cfg_state c) \<and>
           good p (cfg_state c') \<and>
           on_key p (fired c') = on_key p (fired c) \<and>
           pending_at (cfg_state c') p = Some (t + 100 * Millisecond, p, fn_of (cfg_state c) p) \<and>
           fn_of (cfg_state c') p = fn_of (cfg_state c) p"
proof -
  let ?st = "cfg_state c"
  let ?st1 = "?st\<lparr>timers := expire t (timers ?st)\<rparr>"
  let ?c1 = "c\<lparr>cfg_state := ?st1, fired := fired c @ due t ?st\<rparr>"
  have adv: "advance os t c = ?c1" by (rule advance_quiet [OF g q al])
  have g1: "good p ?st1" by (rule good_expire [OF g])
  have cov1: "covered ?st1" using g1 by (simp add: good_def)
  let ?tm2 = "rearm t (matches (binSelf ?st1) (additional ?st1) e) (timers ?st1)"
  let ?st2 = "?st1\<lparr>timers := ?tm2\<rparr>"
  have he: "handle_event t ?st1 e = Some ?st2" by (rule handle_event_rearm [OF cov1 tr])
  have h1: "p = binSelf ?st1 \<or> Name e \<noteq> binSelf ?st1" using h by simp
  have g2: "good p ?st2" by (rule good_rearm [OF g1 h1])
  from good_timer [OF g] obtain t0 where t0: "timers ?st p = Some t0" by blast
  have t1: "timers ?st1 p = Some t0" using expire_quiet [OF q] t0 by simp
  have m1: "matches (binSelf ?st1) (additional ?st1) e p" using m by simp
  have pa: "pending_at ?st2 p = Some (t + 100 * Millisecond, p, timer_f t0)"
    using m1 t1 by (simp add: pending_at_def rearm_def Reset_def)
  have fn: "fn_of ?st p = timer_f t0" using t0 by (simp add: fn_of_def)
  have fn2: "fn_of ?st2 p = timer_f t0"
    using t1 m1 by (simp add: fn_of_def rearm_def Reset_def)
  have rc: "receive t (EventsRecv e) ?c1 = ?c1\<lparr>cfg_state := ?st2\<rparr>"
    using he by (simp add: receive_def)
  let ?c' = "?c1\<lparr>cfg_state := ?st2\<rparr>"
  have "(let c1 = advance os t c
         in if process c1 = Alive \<and> loop c1 = Running then receive t (EventsRecv e) c1 else c1) = ?c'"
    using adv rc al lo by (simp add: Let_def)
  moreover have "process ?c' = Alive" "loop ?c' = Running" using al lo by simp_all
  moreover have "binSelf (cfg_state ?c') = binSelf ?st" "additional (cfg_state ?c') = additional ?st"
    "done_chan (cfg_state ?c') = done_chan ?st" by simp_all
  moreover have "good p (cfg_state ?c')" using g2 by simp
  moreover have "on_key p (fired ?c') = on_key p (fired c)"
    using on_key_due_quiet [OF q] by simp
  moreover have "pending_at (cfg_state ?c') p = Some (t + 100 * Millisecond, p, fn_of ?st p)"
    using pa fn by simp
  moreover have "fn_of (cfg_state ?c') p = fn_of ?st p" using fn fn2 by simp
  ultimately show ?thesis by blast
qed

section \<open>A whole burst, and the timer that fires after it\<close>

lemma run_events_Cons:
  "run os c (events_of ((t, e) # evs)) =
     run os (let c1 = advance os t c
             in if process c1 = Alive \<and> loop c1 = Running then receive t (EventsRecv e) c1 else c1)
       (events_of evs)"
  by (simp add: events_of_def Let_def)

lemma quiet_pending: "pending_at st p = Some (d, k, fn) \<Longrightarrow> t < d \<Longrightarrow> quiet p t st"
  by (simp add: quiet_def)

lemma run_burst:
  assumes "evs \<noteq> []"
    and "spaced (100 * Millisecond) (map fst evs)"
    and "\<forall>(t, e) \<in> set evs. trigger e \<and> matches b as e p \<and> (p = b \<or> Name e \<noteq> b)"
    and "good p (cfg_state c)" and "quiet p (fst (hd evs)) (cfg_state c)"
    and "process c = Alive" and "loop c = Running"
    and "binSelf (cfg_state c) = b" and "additional (cfg_state c) = as"
  shows "\<exists>c'. run os c (events_of evs) = c' \<and>
           process c' = Alive \<and> loop c' = Running \<and>
           done_chan (cfg_state c') = done_chan (cfg_state c) \<and>
           good p (cfg_state c') \<and>
           on_key p (fired c') = on_key p (fired c) \<and>
           pending_at (cfg_state c') p =
             Some (fst (last evs) + 100 * Millisecond, p, fn_of (cfg_state c) p)"
  using assms
proof (induction evs arbitrary: c rule: list_nonempty_induct)
  case (single x)
  obtain t e where x: "x = (t, e)" by (cases x)
  have ev: "trigger e" "matches (binSelf (cfg_state c)) (additional (cfg_state c)) e p"
    "p = binSelf (cfg_state c) \<or> Name e \<noteq> binSelf (cfg_state c)"
    using single.prems x by auto
  have q: "quiet p t (cfg_state c)" using single.prems x by simp
  from step_burst [OF single.prems(3) q single.prems(5,6) ev, of os]
  obtain c' where c': "(let c1 = advance os t c
               in if process c1 = Alive \<and> loop c1 = Running then receive t (EventsRecv e) c1 else c1) = c'"
    "process c' = Alive" "loop c' = Running"
    "done_chan (cfg_state c') = done_chan (cfg_state c)"
    "good p (cfg_state c')" "on_key p (fired c') = on_key p (fired c)"
    "pending_at (cfg_state c') p = Some (t + 100 * Millisecond, p, fn_of (cfg_state c) p)"
    by blast
  have "run os c (events_of [x]) = c'"
    unfolding x run_events_Cons c'(1) by (simp add: events_of_def)
  with c' x show ?case by simp
next
  case (cons x xs)
  obtain t e where x: "x = (t, e)" by (cases x)
  obtain t' e' rest where xs: "xs = (t', e') # rest"
    using cons.hyps by (cases xs) auto
  have ev: "trigger e" "matches (binSelf (cfg_state c)) (additional (cfg_state c)) e p"
    "p = binSelf (cfg_state c) \<or> Name e \<noteq> binSelf (cfg_state c)"
    using cons.prems x by auto
  have q: "quiet p t (cfg_state c)" using cons.prems x by simp
  from step_burst [OF cons.prems(3) q cons.prems(5,6) ev, of os]
  obtain c' where c': "(let c1 = advance os t c
               in if process c1 = Alive \<and> loop c1 = Running then receive t (EventsRecv e) c1 else c1) = c'"
    "process c' = Alive" "loop c' = Running"
    "binSelf (cfg_state c') = binSelf (cfg_state c)"
    "additional (cfg_state c') = additional (cfg_state c)"
    "done_chan (cfg_state c') = done_chan (cfg_state c)"
    "good p (cfg_state c')" "on_key p (fired c') = on_key p (fired c)"
    "pending_at (cfg_state c') p = Some (t + 100 * Millisecond, p, fn_of (cfg_state c) p)"
    "fn_of (cfg_state c') p = fn_of (cfg_state c) p"
    by blast
  have sp: "t' < t + 100 * Millisecond" "spaced (100 * Millisecond) (map fst xs)"
    using cons.prems(1) x xs by simp_all
  have q': "quiet p (fst (hd xs)) (cfg_state c')"
    using quiet_pending [OF c'(9) sp(1)] xs by simp
  have all': "\<forall>(t, e) \<in> set xs. trigger e \<and> matches b as e p \<and> (p = b \<or> Name e \<noteq> b)"
    using cons.prems(2) by simp
  have b': "binSelf (cfg_state c') = b" "additional (cfg_state c') = as"
    using c'(4,5) cons.prems(7,8) by simp_all
  from cons.IH [OF sp(2) all' c'(7) q' c'(2,3) b']
  obtain c'' where c'': "run os c' (events_of xs) = c''"
    "process c'' = Alive" "loop c'' = Running"
    "done_chan (cfg_state c'') = done_chan (cfg_state c')"
    "good p (cfg_state c'')" "on_key p (fired c'') = on_key p (fired c')"
    "pending_at (cfg_state c'') p = Some (fst (last xs) + 100 * Millisecond, p, fn_of (cfg_state c') p)"
    by blast
  have "run os c (events_of (x # xs)) = c''"
    unfolding x run_events_Cons c'(1) by (rule c''(1))
  moreover have "last (x # xs) = last xs" using cons.hyps by simp
  ultimately show ?case using c' c'' by simp
qed

lemma fold_min_mem: "fold min xs (x::nat) \<in> set (x # xs)"
proof (induction xs arbitrary: x)
  case Nil
  then show ?case by simp
next
  case (Cons y ys)
  have m: "min y x = y \<or> min y x = x" by (simp add: min_def)
  have "fold min ys (min y x) \<in> set (min y x # ys)" by (rule Cons.IH)
  with m show ?case by auto
qed

lemma restart_at_mem:
  assumes "restart_at t st = Some r"
  shows "\<exists>k. (r, k, Restart) \<in> set (due t st)"
proof -
  let ?rs = "filter (\<lambda>(d, k, fn). fn = Restart) (due t st)"
  from assms obtain d k fn rs where rs: "?rs = (d, k, fn) # rs" and r: "r = fold min (map fst rs) d"
    by (auto simp: restart_at_def split: list.splits)
  have "r \<in> set (d # map fst rs)" unfolding r by (rule fold_min_mem)
  then have "r \<in> fst ` set ?rs" unfolding rs by auto
  then obtain k' fn' where "(r, k', fn') \<in> set ?rs" by force
  then show ?thesis by auto
qed

lemma advance_fire:
  assumes g: "good p (cfg_state c)" and al: "process c = Alive"
    and pa: "pending_at (cfg_state c) p = Some (d, p, fn)" and le: "d \<le> T"
  shows "on_key p (fired (advance os T c)) = on_key p (fired c) @ [(d, p, fn)]"
proof -
  let ?st = "cfg_state c"
  have pk: "p \<in> set (keys ?st)" using g by (simp add: good_def)
  show ?thesis
  proof (cases "restart_at T ?st")
    case None
    then have "fired (advance os T c) = fired c @ due T ?st"
      using al by (simp add: advance_def Let_def)
    then show ?thesis using on_key_due_now [OF pa pk le] by simp
  next
    case (Some r)
    from restart_at_mem [OF Some] obtain k where k: "(r, k, Restart) \<in> set (due T ?st)" by blast
    then have "(r, k, Restart) \<in> set (pending ?st)" by (simp add: due_def)
    from pending_mem [OF this] obtain tmr where
      tmr: "timers ?st k = Some tmr" "timer_when tmr = Some r" "timer_f tmr = Restart" by blast
    with g have "k = p" unfolding good_def by metis
    with tmr have "pending_at ?st p = Some (r, p, Restart)" by (simp add: pending_at_def)
    with pa have rd: "r = d" by simp
    obtain effs out where ex: "Exec os ?st = (effs, out)" by (cases "Exec os ?st")
    have "fired (advance os T c) = fired c @ due r ?st"
      using al Some ex by (simp add: advance_def Let_def)
    then show ?thesis using on_key_due_now [OF pa pk, of r] rd by simp
  qed
qed

section \<open>What Do has established when it starts the goroutine\<close>

lemma stoppedTimer_simps [simp]:
  "timer_when (stoppedTimer now fn) = None" "timer_f (stoppedTimer now fn) = fn"
  by (simp_all add: stoppedTimer_def Stop_def AfterFunc_def)

lemma init_ok_init: "init_ok b [] [b \<mapsto> stoppedTimer now Restart]"
  by (simp add: init_ok_def)

lemma init_ok_step:
  assumes "init_ok b seen tm"
  shows "init_ok b (seen @ [a\<lparr>path := p\<rparr>]) (tm(p \<mapsto> stoppedTimer now (Callback n)))"
proof -
  let ?tm = "tm(p \<mapsto> stoppedTimer now (Callback n))"
  have 1: "b \<in> dom ?tm" using assms by (simp add: init_ok_def)
  have 2: "\<forall>x \<in> set (seen @ [a\<lparr>path := p\<rparr>]). path x \<in> dom ?tm"
    using assms by (auto simp: init_ok_def)
  have 3: "\<forall>k t. ?tm k = Some t \<longrightarrow> timer_when t = None"
    using assms by (auto simp: init_ok_def)
  have 4: "\<forall>k t. ?tm k = Some t \<longrightarrow> timer_f t = Restart \<longrightarrow> k = b"
    using assms by (auto simp: init_ok_def)
  have 5: "\<forall>k t x. ?tm k = Some t \<longrightarrow> timer_f t = Restart \<longrightarrow>
             x \<in> set (seen @ [a\<lparr>path := p\<rparr>]) \<longrightarrow> path x \<noteq> k"
  proof (intro allI impI)
    fix k t x
    assume k: "?tm k = Some t" and r: "timer_f t = Restart"
      and x: "x \<in> set (seen @ [a\<lparr>path := p\<rparr>])"
    have kp: "k \<noteq> p" using k r by auto
    then have "tm k = Some t" using k by simp
    with r assms have "\<forall>y \<in> set seen. path y \<noteq> k" unfolding init_ok_def by metis
    with x kp show "path x \<noteq> k" by auto
  qed
  have 6: "\<forall>x \<in> set (seen @ [a\<lparr>path := p\<rparr>]). \<exists>t m. ?tm (path x) = Some t \<and> timer_f t = Callback m"
  proof
    fix x assume x: "x \<in> set (seen @ [a\<lparr>path := p\<rparr>])"
    show "\<exists>t m. ?tm (path x) = Some t \<and> timer_f t = Callback m"
    proof (cases "path x = p")
      case True
      then show ?thesis by simp
    next
      case False
      with x have "x \<in> set seen" by auto
      with assms obtain t m where "tm (path x) = Some t" "timer_f t = Callback m"
        unfolding init_ok_def by blast
      with False show ?thesis by simp
    qed
  qed
  show ?thesis unfolding init_ok_def using 1 2 3 4 5 6 by blast
qed

lemma range_additional_ok:
  "range_additional os now as seen dirs tm = Inr (adds', dirs', tm') \<Longrightarrow>
   init_ok b seen tm \<Longrightarrow> init_ok b adds' tm'"
proof (induction as arbitrary: seen dirs tm)
  case Nil
  then show ?case by simp
next
  case (Cons a as)
  from Cons.prems(1) obtain p where
    p: "filepath_Abs os (path a) = Inr p" "os_Stat os p = Inr True"
    and r: "range_additional os now as (seen @ [a\<lparr>path := p\<rparr>]) (dirs @ [p])
              (tm(p \<mapsto> stoppedTimer now (Callback (cb a)))) = Inr (adds', dirs', tm')"
    by (auto split: sum.splits if_splits)
  show ?case by (rule Cons.IH [OF r init_ok_step [OF Cons.prems(2)]])
qed

lemma Do_main_AtDone:
  assumes "at (Do_main os now adds st0) = AtDone"
  shows "\<exists>b adds' dirs tm.
           fsnotify_NewWatcher os = None \<and> self os = Ok b \<and>
           range_additional os now adds [] [filepath_Dir os b] [b \<mapsto> stoppedTimer now Restart]
             = Inr (adds', dirs, tm) \<and>
           snd (range_Add os dirs) = None \<and>
           spawned (Do_main os now adds st0) \<and>
           binSelf (after (Do_main os now adds st0)) = b \<and>
           additional (after (Do_main os now adds st0)) = adds' \<and>
           timers (after (Do_main os now adds st0)) = tm \<and>
           done_chan (after (Do_main os now adds st0)) = make_chan"
  using assms
  by (auto simp: Do_main_def Let_def split: option.splits result.splits sum.splits prod.splits)

lemma Do_main_init_ok:
  assumes "at (Do_main os now adds st0) = AtDone"
  shows "init_ok (binSelf (after (Do_main os now adds st0)))
           (additional (after (Do_main os now adds st0)))
           (timers (after (Do_main os now adds st0)))"
proof -
  from Do_main_AtDone [OF assms] obtain b adds' dirs tm where
    r: "range_additional os now adds [] [filepath_Dir os b] [b \<mapsto> stoppedTimer now Restart]
          = Inr (adds', dirs, tm)"
    and e: "binSelf (after (Do_main os now adds st0)) = b"
      "additional (after (Do_main os now adds st0)) = adds'"
      "timers (after (Do_main os now adds st0)) = tm"
    by blast
  show ?thesis unfolding e by (rule range_additional_ok [OF r init_ok_init])
qed

lemma init_ok_good:
  assumes "init_ok (binSelf st) (additional st) (timers st)" and "p \<in> set (keys st)"
  shows "good p st"
proof -
  have "\<forall>k t d. timers st k = Some t \<longrightarrow> timer_f t = Restart \<longrightarrow> timer_when t = Some d \<longrightarrow> k = p"
    using assms(1) unfolding init_ok_def by (metis option.distinct(1))
  then show ?thesis
    using assms unfolding good_def init_ok_def covered_def by blast
qed

lemma init_ok_quiet:
  assumes "init_ok (binSelf st) (additional st) (timers st)"
  shows "quiet p t st"
proof -
  have "pending_at st p = None"
    using assms unfolding init_ok_def pending_at_def by (auto split: option.splits)
  then show ?thesis by (simp add: quiet_def)
qed

section \<open>Debouncing\<close>

lemma final_Do:
  "final (Do os now adds st0 stream T) =
     advance os T (run os \<lparr>cfg_state = after (Do_main os now adds st0),
                           loop = (if spawned (Do_main os now adds st0) then Running else NotStarted),
                           process = Alive, fired = [], effects = []\<rparr> stream)"
  by (simp add: Do_def Let_def)

lemma burst_on_keys:
  assumes "burst_on (binSelf st) (additional st) p evs"
  shows "p \<in> set (keys st)"
proof -
  from assms obtain t e where "(t, e) \<in> set evs"
    unfolding burst_on_def by (cases evs) auto
  with assms have "matches (binSelf st) (additional st) e p"
    unfolding burst_on_def by auto
  then show ?thesis unfolding set_keys matches_def by auto
qed

lemma on_key_pending_le: "length (on_key p (pending s)) \<le> 1"
proof (cases "p \<in> set (keys s)")
  case False
  then show ?thesis by (simp add: on_key_pending_notin)
next
  case True
  show ?thesis
  proof (cases "pending_at s p")
    case None
    then show ?thesis by (simp add: on_key_pending_None)
  next
    case (Some x)
    then show ?thesis using True by (simp add: on_key_pending_Some)
  qed
qed

lemma handle_event_arms:
  assumes c: "covered s" and tr: "trigger e" and m: "matches (binSelf s) (additional s) e p"
  shows "\<exists>s'. handle_event t s e = Some s' \<and>
              pending_at s' p = Some (t + 100 * Millisecond, p, fn_of s p)"
proof -
  have "p \<in> dom (timers s)"
    using c m unfolding covered_def matches_def by auto
  then obtain t0 where t0: "timers s p = Some t0" by blast
  have "pending_at (s\<lparr>timers := rearm t (matches (binSelf s) (additional s) e) (timers s)\<rparr>) p
          = Some (t + 100 * Millisecond, p, timer_f t0)"
    using m t0 by (simp add: pending_at_def rearm_def Reset_def)
  moreover have "fn_of s p = timer_f t0" using t0 by (simp add: fn_of_def)
  ultimately show ?thesis using handle_event_rearm [OF c tr, of t] by simp
qed

section \<open>The goroutine and the last receive of Do\<close>

lemma handle_event_keeps:
  "handle_event t st e = Some st' \<Longrightarrow>
   done_chan st' = done_chan st \<and> binSelf st' = binSelf st \<and> additional st' = additional st"
  by (auto simp: handle_event_def split: if_splits option.splits)

lemma advance_done_chan [simp]: "done_chan (cfg_state (advance os t c)) = done_chan (cfg_state c)"
  by (simp add: advance_def Let_def split: option.splits prod.splits)

lemma advance_loop [simp]: "loop (advance os t c) = loop c"
  by (simp add: advance_def Let_def split: option.splits prod.splits)

lemma advance_alive: "process (advance os t c) = Alive \<Longrightarrow> process c = Alive"
  by (simp add: advance_def Let_def split: if_splits)

lemma advance_dead: "process c \<noteq> Alive \<Longrightarrow> advance os t c = c"
  by (simp add: advance_def)

lemma receive_done_chan [simp]: "done_chan (cfg_state (receive t it c)) = done_chan (cfg_state c)"
  by (cases it) (auto simp: receive_def split: option.splits dest: handle_event_keeps)

lemma receive_loop:
  "loop (receive t it c) = (if it = ErrorsClosed \<or> it = EventsClosed then Exited else loop c)"
  by (cases it) (auto simp: receive_def split: option.splits)

lemma run_done_chan [simp]: "done_chan (cfg_state (run os c s)) = done_chan (cfg_state c)"
proof (induction s arbitrary: c)
  case Nil
  then show ?case by simp
next
  case (Cons x s)
  obtain t it where x: "x = (t, it)" by (cases x)
  show ?case unfolding x by (simp add: Let_def Cons.IH)
qed

lemma run_dead: "process c \<noteq> Alive \<Longrightarrow> run os c s = c"
proof (induction s arbitrary: c)
  case Nil
  then show ?case by simp
next
  case (Cons x s)
  obtain t it where x: "x = (t, it)" by (cases x)
  show ?case unfolding x using Cons by (simp add: Let_def advance_dead)
qed

lemma run_not_running: "loop c \<noteq> Running \<Longrightarrow> loop (run os c s) = loop c"
proof (induction s arbitrary: c)
  case Nil
  then show ?case by simp
next
  case (Cons x s)
  obtain t it where x: "x = (t, it)" by (cases x)
  have "loop (advance os t c) \<noteq> Running" using Cons.prems by simp
  from Cons.IH [OF this] show ?case unfolding x using Cons.prems by (simp add: Let_def)
qed

lemma run_no_close:
  "\<forall>(t, it) \<in> set s. it \<noteq> ErrorsClosed \<and> it \<noteq> EventsClosed \<Longrightarrow> loop (run os c s) = loop c"
proof (induction s arbitrary: c)
  case Nil
  then show ?case by simp
next
  case (Cons x s)
  obtain t it where x: "x = (t, it)" by (cases x)
  have it: "it \<noteq> ErrorsClosed" "it \<noteq> EventsClosed" and rest: "\<forall>(t, it) \<in> set s. it \<noteq> ErrorsClosed \<and> it \<noteq> EventsClosed"
    using Cons.prems x by auto
  show ?case unfolding x using it Cons.IH [OF rest] by (simp add: Let_def receive_loop)
qed

lemma run_closed:
  assumes "process (run os c s) = Alive" and "loop c = Running"
    and "\<exists>(t, it) \<in> set s. it = ErrorsClosed \<or> it = EventsClosed"
  shows "loop (run os c s) = Exited"
  using assms
proof (induction s arbitrary: c)
  case Nil
  then show ?case by simp
next
  case (Cons x s)
  obtain t it where x: "x = (t, it)" by (cases x)
  let ?c1 = "advance os t c"
  show ?case
  proof (cases "process ?c1 = Alive")
    case False
    then have "run os c (x # s) = ?c1" unfolding x by (simp add: Let_def run_dead)
    with Cons.prems(1) False show ?thesis by simp
  next
    case True
    have l1: "loop ?c1 = Running" using Cons.prems(2) by simp
    have r: "run os c (x # s) = run os (receive t it ?c1) s"
      unfolding x using True l1 by (simp add: Let_def)
    show ?thesis
    proof (cases "it = ErrorsClosed \<or> it = EventsClosed")
      case True
      then have "loop (receive t it ?c1) = Exited" by (simp add: receive_loop)
      then show ?thesis unfolding r by (simp add: run_not_running)
    next
      case False
      then have l2: "loop (receive t it ?c1) = Running" using l1 by (simp add: receive_loop)
      have ex: "\<exists>(t, it) \<in> set s. it = ErrorsClosed \<or> it = EventsClosed"
        using Cons.prems(3) False x by auto
      have al: "process (run os (receive t it ?c1) s) = Alive" using Cons.prems(1) r by simp
      show ?thesis unfolding r by (rule Cons.IH [OF al l2 ex])
    qed
  qed
qed

lemma status_Do:
  "status (Do os now adds st0 stream T) =
     (case at (Do_main os now adds st0) of
        Return e \<Rightarrow> Returned (Some e)
      | Panics p \<Rightarrow> DoPanicked p
      | AtDone \<Rightarrow>
          (case recv (done_chan (after (Do_main os now adds st0))) of
             None \<Rightarrow> BlockedAtDone
           | Some b \<Rightarrow> Returned None))"
  by (simp add: Do_def Let_def split: main_at.splits)

lemma main_calls_Do: "main_calls (Do os now adds st0 stream T) = calls (Do_main os now adds st0)"
  by (simp add: Do_def Let_def)

text \<open>
  Claim C2, as amended. Once \<open>Do\<close> has come to its last receive it never returns,
  whatever its goroutine receives and however long one waits: nothing sends on \<open>done\<close>
  or closes it. When the events or the errors channel is closed, it is the goroutine
  that returns (if the process is still there), not \<open>Do\<close>.
\<close>

theorem Do_blocks_forever:
  assumes "at (Do_main os now adds st0) = AtDone"
  shows "status (Do os now adds st0 stream T) = BlockedAtDone \<and>
         ((\<exists>(t, it) \<in> set stream. it = ErrorsClosed \<or> it = EventsClosed) \<and>
          process (final (Do os now adds st0 stream T)) = Alive \<longrightarrow>
            loop (final (Do os now adds st0 stream T)) = Exited)"
proof
  have "done_chan (after (Do_main os now adds st0)) = make_chan"
    using Do_main_AtDone [OF assms] by blast
  then show "status (Do os now adds st0 stream T) = BlockedAtDone"
    using assms by (simp add: status_Do recv_def make_chan_def)
next
  let ?c0 = "\<lparr>cfg_state = after (Do_main os now adds st0),
              loop = (if spawned (Do_main os now adds st0) then Running else NotStarted),
              process = Alive, fired = [], effects = []\<rparr>"
  have sp: "spawned (Do_main os now adds st0)"
    using Do_main_AtDone [OF assms] by blast
  have lo: "loop ?c0 = Running" using sp by simp
  show "(\<exists>(t, it) \<in> set stream. it = ErrorsClosed \<or> it = EventsClosed) \<and>
          process (final (Do os now adds st0 stream T)) = Alive \<longrightarrow>
            loop (final (Do os now adds st0 stream T)) = Exited"
  proof
    assume a: "(\<exists>(t, it) \<in> set stream. it = ErrorsClosed \<or> it = EventsClosed) \<and>
          process (final (Do os now adds st0 stream T)) = Alive"
    from a have ex: "\<exists>(t, it) \<in> set stream. it = ErrorsClosed \<or> it = EventsClosed" ..
    from a have "process (advance os T (run os ?c0 stream)) = Alive"
      unfolding final_Do ..
    then have al: "process (run os ?c0 stream) = Alive" by (rule advance_alive)
    have "loop (run os ?c0 stream) = Exited" by (rule run_closed [OF al lo ex])
    then show "loop (final (Do os now adds st0 stream T)) = Exited"
      unfolding final_Do by simp
  qed
qed

section \<open>A burst after any history\<close>

lemma same_fns_refl: "same_fns st st"
  by (simp add: same_fns_def)

lemma same_fns_trans: "same_fns a b \<Longrightarrow> same_fns b c \<Longrightarrow> same_fns a c"
  by (simp add: same_fns_def)

lemma Reset_at_fns:
  "Reset_at now k tm = Some tm' \<Longrightarrow> map_option timer_f (tm' x) = map_option timer_f (tm x)"
  by (auto simp: Reset_at_def Reset_def split: option.splits)

lemma range_Reset_fns:
  "range_Reset now name as tm = Some tm' \<Longrightarrow> map_option timer_f (tm' x) = map_option timer_f (tm x)"
proof (induction as arbitrary: tm)
  case Nil
  then show ?case by simp
next
  case (Cons a as)
  show ?case
  proof (cases "HasPrefix name (path a)")
    case True
    with Cons.prems obtain tm1 where
      1: "Reset_at now (path a) tm = Some tm1" and 2: "range_Reset now name as tm1 = Some tm'"
      by (auto split: option.splits)
    from Cons.IH [OF 2] Reset_at_fns [OF 1] show ?thesis by simp
  next
    case False
    with Cons.prems have "range_Reset now name as tm = Some tm'" by simp
    from Cons.IH [OF this] show ?thesis .
  qed
qed

lemma handle_event_fns:
  assumes "handle_event now st e = Some st'"
  shows "same_fns st st'"
proof (cases "trigger e")
  case False
  with assms show ?thesis by (simp add: handle_event_def same_fns_def)
next
  case True
  with assms obtain tm1 tm2 where
    1: "(if Name e = binSelf st then Reset_at now (binSelf st) (timers st) else Some (timers st)) = Some tm1"
    and 2: "range_Reset now (Name e) (additional st) tm1 = Some tm2"
    and 3: "st' = st\<lparr>timers := tm2\<rparr>"
    by (auto simp: handle_event_def split: option.splits)
  have a: "\<forall>k. map_option timer_f (tm1 k) = map_option timer_f (timers st k)"
    using 1 by (auto split: if_splits dest: Reset_at_fns)
  have b: "\<forall>k. map_option timer_f (tm2 k) = map_option timer_f (tm1 k)"
    using range_Reset_fns [OF 2] by simp
  show ?thesis unfolding 3 same_fns_def using a b by simp
qed

lemma expire_fns: "map_option timer_f (expire lim tm k) = map_option timer_f (tm k)"
  by (simp add: expire_def split: option.splits)

lemma advance_fns: "same_fns (cfg_state c) (cfg_state (advance os t c))"
  by (simp add: advance_def Let_def same_fns_def expire_fns split: option.splits prod.splits)

lemma receive_fns: "same_fns (cfg_state c) (cfg_state (receive t it c))"
proof (cases it)
  case (EventsRecv e)
  then show ?thesis
    by (auto simp: receive_def same_fns_refl split: option.splits dest: handle_event_fns)
qed (simp_all add: receive_def same_fns_refl)

lemma run_fns: "same_fns (cfg_state c) (cfg_state (run os c s))"
proof (induction s arbitrary: c)
  case Nil
  then show ?case by (simp add: same_fns_refl)
next
  case (Cons x s)
  obtain t it where x: "x = (t, it)" by (cases x)
  let ?c1 = "advance os t c"
  show ?case
  proof (cases "process ?c1 = Alive \<and> loop ?c1 = Running")
    case True
    then have r: "run os c (x # s) = run os (receive t it ?c1) s" unfolding x by (simp add: Let_def)
    have "same_fns (cfg_state c) (cfg_state (receive t it ?c1))"
      by (rule same_fns_trans [OF advance_fns receive_fns])
    from same_fns_trans [OF this Cons.IH] show ?thesis unfolding r .
  next
    case False
    then have r: "run os c (x # s) = run os ?c1 s" unfolding x by (auto simp: Let_def)
    from same_fns_trans [OF advance_fns Cons.IH] show ?thesis unfolding r .
  qed
qed

lemma same_fns_timer:
  assumes "same_fns st st'" and "timers st' k = Some t'"
  shows "\<exists>t. timers st k = Some t \<and> timer_f t = timer_f t'"
proof -
  have "map_option timer_f (timers st' k) = map_option timer_f (timers st k)"
    using assms(1) by (simp add: same_fns_def)
  with assms(2) show ?thesis by (cases "timers st k") auto
qed

lemma same_fns_dom: "same_fns st st' \<Longrightarrow> dom (timers st') = dom (timers st)"
proof -
  assume a: "same_fns st st'"
  have "\<And>k. (timers st' k = None) = (timers st k = None)"
  proof -
    fix k
    have "map_option timer_f (timers st' k) = map_option timer_f (timers st k)"
      using a by (simp add: same_fns_def)
    then show "(timers st' k = None) = (timers st k = None)"
      by (cases "timers st k"; cases "timers st' k") auto
  qed
  then show ?thesis by (auto simp: dom_def)
qed

lemma same_fns_sound:
  assumes f: "same_fns st st'" and s: "sound st"
  shows "sound st'"
proof -
  have b: "binSelf st' = binSelf st" "additional st' = additional st"
    using f by (simp_all add: same_fns_def)
  have c: "covered st'"
    using s same_fns_dom [OF f] b by (simp add: sound_def covered_def)
  have 1: "\<forall>k t. timers st' k = Some t \<longrightarrow> timer_f t = Restart \<longrightarrow> k = binSelf st'"
  proof (intro allI impI)
    fix k t assume "timers st' k = Some t" and r: "timer_f t = Restart"
    from same_fns_timer [OF f this(1)] obtain t0 where "timers st k = Some t0" "timer_f t0 = timer_f t"
      by blast
    with r s b show "k = binSelf st'" unfolding sound_def by metis
  qed
  have 2: "\<forall>k t a. timers st' k = Some t \<longrightarrow> timer_f t = Restart \<longrightarrow> a \<in> set (additional st') \<longrightarrow>
             path a \<noteq> k"
  proof (intro allI impI)
    fix k t a
    assume "timers st' k = Some t" and r: "timer_f t = Restart" and m: "a \<in> set (additional st')"
    from same_fns_timer [OF f this(1)] obtain t0 where "timers st k = Some t0" "timer_f t0 = timer_f t"
      by blast
    with r m s b show "path a \<noteq> k" unfolding sound_def by metis
  qed
  show ?thesis unfolding sound_def using c 1 2 by blast
qed

lemma same_fns_fn_of:
  assumes "same_fns st st'"
  shows "fn_of st' p = fn_of st p"
proof -
  have "map_option timer_f (timers st' p) = map_option timer_f (timers st p)"
    using assms by (simp add: same_fns_def)
  then show ?thesis
    unfolding fn_of_def by (cases "timers st p"; cases "timers st' p") auto
qed

lemma init_ok_sound:
  "init_ok (binSelf st) (additional st) (timers st) \<Longrightarrow> sound st"
  unfolding init_ok_def sound_def covered_def by blast

lemma run_append: "run os c (xs @ ys) = run os (run os c xs) ys"
proof (induction xs arbitrary: c)
  case Nil
  then show ?case by simp
next
  case (Cons x xs)
  obtain t it where x: "x = (t, it)" by (cases x)
  show ?case unfolding x by (simp add: Let_def Cons.IH)
qed

lemma pending_at_expire:
  "pending_at (st\<lparr>timers := expire t (timers st)\<rparr>) k = Some (d, k', fn) \<Longrightarrow> t < d"
  by (auto simp: pending_at_def expire_def split: option.splits if_splits)

lemma due_expire: "due t (st\<lparr>timers := expire t (timers st)\<rparr>) = []"
proof -
  let ?st = "st\<lparr>timers := expire t (timers st)\<rparr>"
  have "\<forall>x \<in> set (pending ?st). \<not> (case x of (d, k, fn) \<Rightarrow> d \<le> t)"
  proof
    fix x assume x: "x \<in> set (pending ?st)"
    obtain d k fn where e: "x = (d, k, fn)" by (cases x)
    from pending_mem [OF x [unfolded e]] obtain tmr where
      "timers ?st k = Some tmr" "timer_when tmr = Some d" "timer_f tmr = fn" by blast
    then have "pending_at ?st k = Some (d, k, fn)" by (simp add: pending_at_def)
    from pending_at_expire [OF this] show "\<not> (case x of (d, k, fn) \<Rightarrow> d \<le> t)"
      unfolding e by simp
  qed
  then show ?thesis unfolding due_def filter_empty_conv by blast
qed

lemma expire_expire: "expire t (expire t tm) = expire t tm"
  by (auto simp: expire_def fun_eq_iff split: option.splits)

lemma advance_idem: "advance os t (advance os t c) = advance os t c"
proof (cases "process c = Alive")
  case False
  then show ?thesis by (simp add: advance_def)
next
  case True
  let ?st = "cfg_state c"
  show ?thesis
  proof (cases "restart_at t ?st")
    case (Some r)
    obtain effs out where ex: "Exec os ?st = (effs, out)" by (cases "Exec os ?st")
    have "process (advance os t c) \<noteq> Alive"
      using True Some ex by (simp add: advance_def Let_def)
    then show ?thesis by (rule advance_dead)
  next
    case None
    let ?st1 = "?st\<lparr>timers := expire t (timers ?st)\<rparr>"
    let ?c1 = "c\<lparr>cfg_state := ?st1, fired := fired c @ due t ?st\<rparr>"
    have a: "advance os t c = ?c1" using True None by (simp add: advance_def Let_def)
    have d: "due t ?st1 = []" by (rule due_expire)
    then have r: "restart_at t ?st1 = None" by (simp add: restart_at_def)
    have "advance os t ?c1 = ?c1"
      using True r d by (simp add: advance_def Let_def expire_expire)
    then show ?thesis unfolding a .
  qed
qed

lemma run_after_advance:
  "run os (advance os t c) ((t, it) # r) = run os c ((t, it) # r)"
  by (simp add: advance_idem)

lemma quiet_after_advance:
  assumes "process (advance os t c) = Alive"
  shows "quiet p t (cfg_state (advance os t c))"
proof -
  have al: "process c = Alive" by (rule advance_alive [OF assms])
  have n: "restart_at t (cfg_state c) = None"
  proof (cases "restart_at t (cfg_state c)")
    case (Some r)
    obtain effs out where ex: "Exec os (cfg_state c) = (effs, out)" by (cases "Exec os (cfg_state c)")
    have "process (advance os t c) \<noteq> Alive"
      using al Some ex by (simp add: advance_def Let_def)
    with assms show ?thesis by simp
  qed simp
  have s: "cfg_state (advance os t c) = (cfg_state c)\<lparr>timers := expire t (timers (cfg_state c))\<rparr>"
    using al n by (simp add: advance_def Let_def)
  show ?thesis
  proof (cases "pending_at (cfg_state (advance os t c)) p")
    case None
    then show ?thesis by (simp add: quiet_def)
  next
    case (Some x)
    obtain d k fn where x: "x = (d, k, fn)" by (cases x)
    from Some have "t < d" unfolding s x by (rule pending_at_expire)
    with Some x show ?thesis by (simp add: quiet_def)
  qed
qed

lemma sound_good:
  assumes s: "sound st" and k: "p \<in> set (keys st)"
    and u: "p = binSelf st \<or> pending_at st (binSelf st) = None"
  shows "good p st"
proof -
  have "\<forall>k t d. timers st k = Some t \<longrightarrow> timer_f t = Restart \<longrightarrow> timer_when t = Some d \<longrightarrow> k = p"
  proof (intro allI impI)
    fix k t d
    assume t: "timers st k = Some t" and r: "timer_f t = Restart" and w: "timer_when t = Some d"
    have kb: "k = binSelf st" using s t r unfolding sound_def by metis
    have "pending_at st (binSelf st) \<noteq> None" using t w kb by (simp add: pending_at_def)
    with u kb show "k = p" by auto
  qed
  then show ?thesis using s k unfolding good_def sound_def by blast
qed

text \<open>
  Claim C1, as amended. Let \<open>Do\<close> have come to its last receive and its goroutine have
  received anything at all (\<open>earlier\<close>), and let then a burst of write or create events
  arrive on one watched path \<open>p\<close> (the executable, or an additional directory), each
  less than 100 ms after the one before, while the process is alive and the goroutine
  running. Then
  \<^item> each event of the burst, in whatever state the timers are, leaves the timer of \<open>p\<close>
    pending at exactly 100 ms after the event, whatever instant it was pending at before;
  \<^item> in every state at most one run of the timer of \<open>p\<close> is outstanding;
  \<^item> if no restart can come in between, the burst adds exactly one run of the timer of
    \<open>p\<close> to those before it, 100 ms after its last event: this is so when \<open>p\<close> is the
    executable, and for an additional directory when the timer of the executable is not
    pending as the burst begins and no event of the burst is the executable itself.
\<close>

theorem debounce_burst:
  assumes su: "at (Do_main os now adds st0) = AtDone"
    and st: "st = after (Do_main os now adds st0)"
    and burst: "burst_on (binSelf st) (additional st) p evs"
    and before: "before = final (Do os now adds st0 earlier (fst (hd evs)))"
  shows "(\<forall>(t, e) \<in> set evs. \<forall>s. covered s \<and> binSelf s = binSelf st \<and> additional s = additional st \<longrightarrow>
            (\<exists>s'. handle_event t s e = Some s' \<and>
                  pending_at s' p = Some (t + 100 * Millisecond, p, fn_of s p))) \<and>
         (\<forall>s. length (on_key p (pending s)) \<le> 1) \<and>
         (process before = Alive \<and> loop before = Running \<and>
          (p = binSelf st \<or>
           (pending_at (cfg_state before) (binSelf st) = None \<and>
            (\<forall>(t, e) \<in> set evs. Name e \<noteq> binSelf st))) \<and>
          fst (last evs) + 100 * Millisecond \<le> T \<longrightarrow>
            on_key p (fired (final (Do os now adds st0 (earlier @ events_of evs) T))) =
              on_key p (fired before) @ [(fst (last evs) + 100 * Millisecond, p, fn_of st p)])"
proof (intro conjI)
  show "\<forall>(t, e) \<in> set evs. \<forall>s. covered s \<and> binSelf s = binSelf st \<and> additional s = additional st \<longrightarrow>
            (\<exists>s'. handle_event t s e = Some s' \<and>
                  pending_at s' p = Some (t + 100 * Millisecond, p, fn_of s p))"
  proof (clarify)
    fix t e s
    assume te: "(t, e) \<in> set evs" and s: "covered s" "binSelf s = binSelf st" "additional s = additional st"
    from burst te have "trigger e" "matches (binSelf st) (additional st) e p"
      unfolding burst_on_def by auto
    with s show "\<exists>s'. handle_event t s e = Some s' \<and>
                  pending_at s' p = Some (t + 100 * Millisecond, p, fn_of s p)"
      by (intro handle_event_arms) simp_all
  qed
next
  show "\<forall>s. length (on_key p (pending s)) \<le> 1" by (rule allI) (rule on_key_pending_le)
next
  show "process before = Alive \<and> loop before = Running \<and>
          (p = binSelf st \<or>
           (pending_at (cfg_state before) (binSelf st) = None \<and>
            (\<forall>(t, e) \<in> set evs. Name e \<noteq> binSelf st))) \<and>
          fst (last evs) + 100 * Millisecond \<le> T \<longrightarrow>
            on_key p (fired (final (Do os now adds st0 (earlier @ events_of evs) T))) =
              on_key p (fired before) @ [(fst (last evs) + 100 * Millisecond, p, fn_of st p)]"
  proof
  assume h: "process before = Alive \<and> loop before = Running \<and>
          (p = binSelf st \<or>
           (pending_at (cfg_state before) (binSelf st) = None \<and>
            (\<forall>(t, e) \<in> set evs. Name e \<noteq> binSelf st))) \<and>
          fst (last evs) + 100 * Millisecond \<le> T"
  then have alive: "process before = Alive" and running: "loop before = Running"
    and undisturbed: "p = binSelf st \<or>
          (pending_at (cfg_state before) (binSelf st) = None \<and>
           (\<forall>(t, e) \<in> set evs. Name e \<noteq> binSelf st))"
    and T: "fst (last evs) + 100 * Millisecond \<le> T"
    by blast+
  let ?m = "Do_main os now adds st0"
  let ?c0 = "\<lparr>cfg_state = after ?m, loop = (if spawned ?m then Running else NotStarted),
              process = Alive, fired = [], effects = []\<rparr>"
  let ?ce = "run os ?c0 earlier"
  let ?t1 = "fst (hd evs)"
  have ne: "evs \<noteq> []" and sp: "spaced (100 * Millisecond) (map fst evs)"
    and qm: "\<forall>(t, e) \<in> set evs. trigger e \<and> matches (binSelf st) (additional st) e p"
    using burst unfolding burst_on_def by simp_all
  obtain e1 rest where evs: "evs = (?t1, e1) # rest" using ne by (cases evs) auto
  have bf: "before = advance os ?t1 ?ce" unfolding before final_Do ..
  have ok: "init_ok (binSelf st) (additional st) (timers st)"
    unfolding st by (rule Do_main_init_ok [OF su])
  have f0: "same_fns st (cfg_state ?ce)" using run_fns [of ?c0 os earlier] st by simp
  have fb: "same_fns st (cfg_state before)"
    unfolding bf by (rule same_fns_trans [OF f0 advance_fns])
  have sb: "sound (cfg_state before)" by (rule same_fns_sound [OF fb init_ok_sound [OF ok]])
  have bb: "binSelf (cfg_state before) = binSelf st" "additional (cfg_state before) = additional st"
    using fb by (simp_all add: same_fns_def)
  have pk: "p \<in> set (keys (cfg_state before))"
    using burst_on_keys [OF burst] bb by (simp add: set_keys)
  have u: "p = binSelf (cfg_state before) \<or> pending_at (cfg_state before) (binSelf (cfg_state before)) = None"
    using undisturbed bb by auto
  have g: "good p (cfg_state before)" by (rule sound_good [OF sb pk u])
  have q: "quiet p (fst (hd evs)) (cfg_state before)"
    using alive unfolding bf by (rule quiet_after_advance)
  have all: "\<forall>(t, e) \<in> set evs. trigger e \<and> matches (binSelf st) (additional st) e p \<and>
               (p = binSelf st \<or> Name e \<noteq> binSelf st)"
    using qm undisturbed by auto
  have "\<exists>c'. run os before (events_of evs) = c' \<and>
           process c' = Alive \<and> loop c' = Running \<and>
           done_chan (cfg_state c') = done_chan (cfg_state before) \<and>
           good p (cfg_state c') \<and>
           on_key p (fired c') = on_key p (fired before) \<and>
           pending_at (cfg_state c') p =
             Some (fst (last evs) + 100 * Millisecond, p, fn_of (cfg_state before) p)"
    by (rule run_burst [OF ne sp all g q alive running bb])
  then obtain c' where c': "run os before (events_of evs) = c'" "process c' = Alive"
    "good p (cfg_state c')" "on_key p (fired c') = on_key p (fired before)"
    "pending_at (cfg_state c') p = Some (fst (last evs) + 100 * Millisecond, p, fn_of (cfg_state before) p)"
    by blast
  have r1: "run os ?c0 (earlier @ events_of evs) = run os ?ce (events_of evs)"
    by (rule run_append)
  have r2: "run os ?ce (events_of evs) = run os before (events_of evs)"
    unfolding bf by (subst evs, subst (2) evs) (simp add: events_of_def run_after_advance del: run.simps)
  have fin: "final (Do os now adds st0 (earlier @ events_of evs) T) = advance os T c'"
    unfolding final_Do r1 r2 c'(1) ..
  have "on_key p (fired (advance os T c')) =
          on_key p (fired c') @ [(fst (last evs) + 100 * Millisecond, p, fn_of (cfg_state before) p)]"
    by (rule advance_fire [OF c'(3,2,5) T])
  then show "on_key p (fired (final (Do os now adds st0 (earlier @ events_of evs) T))) =
           on_key p (fired before) @ [(fst (last evs) + 100 * Millisecond, p, fn_of st p)]"
    unfolding fin using c'(4) same_fns_fn_of [OF fb] by simp
  qed
qed

section \<open>Failures of Do, and which events arm which timers\<close>

lemma range_additional_invalid:
  "\<exists>a \<in> set as. invalid_dir os a \<Longrightarrow>
   \<exists>e. range_additional os now as seen dirs tm = Inl e \<and> ConfigurationError e"
proof (induction as arbitrary: seen dirs tm)
  case Nil
  then show ?case by simp
next
  case (Cons a as)
  show ?case
  proof (cases "invalid_dir os a")
    case True
    then show ?thesis
      by (auto simp: invalid_dir_def ConfigurationError_def)
  next
    case False
    then have "\<exists>a \<in> set as. invalid_dir os a" using Cons.prems by simp
    from Cons.IH [OF this] show ?thesis
      by (auto simp: ConfigurationError_def split: sum.splits)
  qed
qed

text \<open>
  Claim C7. When the watcher could be made and the executable found, and some additional
  directory cannot be made absolute, does not exist or is not a directory, \<open>Do\<close> returns
  one of the three errors of the loop over the directories; the only call it has made is
  the creation of the watcher (no directory was added to it), and the goroutine was never
  started.
\<close>

theorem invalid_dir_no_watch:
  assumes "fsnotify_NewWatcher os = None" and "self os = Ok b"
    and "\<exists>a \<in> set adds. invalid_dir os a"
  shows "\<exists>e. status (Do os now adds st0 stream T) = Returned (Some e) \<and> ConfigurationError e \<and>
             main_calls (Do os now adds st0 stream T) = [NewWatcherCall] \<and>
             loop (final (Do os now adds st0 stream T)) = NotStarted"
proof -
  from range_additional_invalid [OF assms(3)] obtain e where
    e: "range_additional os now adds [] [filepath_Dir os b] [b \<mapsto> stoppedTimer now Restart] = Inl e"
      "ConfigurationError e"
    by blast
  have m: "at (Do_main os now adds st0) = Return e" "calls (Do_main os now adds st0) = [NewWatcherCall]"
    "spawned (Do_main os now adds st0) = False"
    using assms(1,2) e(1) by (simp_all add: Do_main_def Let_def)
  have "loop (final (Do os now adds st0 stream T)) = NotStarted"
    unfolding final_Do using m(3) by (simp add: run_not_running)
  with m e(2) show ?thesis by (simp add: status_Do main_calls_Do)
qed

lemma range_Add_fails:
  "\<exists>d \<in> set ds. watcher_Add os d \<noteq> None \<Longrightarrow>
   \<exists>effs d e. range_Add os ds = (effs, Some (CannotAddToWatcher d e)) \<and>
              d \<in> set ds \<and> watcher_Add os d = Some e"
proof (induction ds)
  case Nil
  then show ?case by simp
next
  case (Cons d ds)
  show ?case
  proof (cases "watcher_Add os d")
    case (Some e)
    then show ?thesis by auto
  next
    case None
    then have "\<exists>d \<in> set ds. watcher_Add os d \<noteq> None" using Cons.prems by auto
    from Cons.IH [OF this] obtain effs d' e where
      "range_Add os ds = (effs, Some (CannotAddToWatcher d' e))" "d' \<in> set ds" "watcher_Add os d' = Some e"
      by blast
    with None show ?thesis by auto
  qed
qed

text \<open>
  Claim C8, as amended. When adding some directory to the watcher fails, \<open>Do\<close> returns
  that failure, wrapped with the directory. The goroutine was started before the
  directories were added and nothing stops it: as long as neither channel is closed it
  is still running after \<open>Do\<close> has returned.
\<close>

theorem failed_subscription_leaves_goroutine:
  assumes "fsnotify_NewWatcher os = None" and "self os = Ok b"
    and "range_additional os now adds [] [filepath_Dir os b] [b \<mapsto> stoppedTimer now Restart]
           = Inr (adds', dirs, tm)"
    and "\<exists>d \<in> set dirs. watcher_Add os d \<noteq> None"
    and "\<forall>(t, it) \<in> set stream. it \<noteq> ErrorsClosed \<and> it \<noteq> EventsClosed"
  shows "\<exists>d e. d \<in> set dirs \<and> watcher_Add os d = Some e \<and>
           status (Do os now adds st0 stream T) = Returned (Some (CannotAddToWatcher d e)) \<and>
           GoLoop \<in> set (main_calls (Do os now adds st0 stream T)) \<and>
           loop (final (Do os now adds st0 stream T)) = Running"
proof -
  from range_Add_fails [OF assms(4)] obtain effs d e where
    r: "range_Add os dirs = (effs, Some (CannotAddToWatcher d e))" "d \<in> set dirs"
      "watcher_Add os d = Some e"
    by blast
  have m: "at (Do_main os now adds st0) = Return (CannotAddToWatcher d e)"
    "calls (Do_main os now adds st0) = [NewWatcherCall, GoLoop] @ effs"
    "spawned (Do_main os now adds st0) = True"
    using assms(1,2,3) r(1) by (simp_all add: Do_main_def Let_def)
  have "loop (final (Do os now adds st0 stream T)) = Running"
    unfolding final_Do using m(3) run_no_close [OF assms(5)] by simp
  with m r(2,3) show ?thesis by (auto simp: status_Do main_calls_Do)
qed

text \<open>
  Claim C3. An event whose kind holds neither write nor create leaves every timer as it
  is, in every state: the event case changes nothing, and so does the turn of the loop
  that receives the event.
\<close>

theorem other_kinds_never_arm:
  assumes "\<not> Has e Write" and "\<not> Has e Create"
  shows "handle_event now st e = Some st \<and> receive now (EventsRecv e) c = c"
  using assms by (simp add: handle_event_def trigger_def receive_def)

lemma init_ok_covered:
  "init_ok (binSelf st) (additional st) (timers st) \<Longrightarrow> covered st"
  by (simp add: init_ok_def covered_def)

lemma init_ok_callback:
  "init_ok (binSelf st) (additional st) (timers st) \<Longrightarrow> a \<in> set (additional st) \<Longrightarrow>
   \<exists>n. fn_of st (path a) = Callback n"
  unfolding init_ok_def fn_of_def by fastforce

lemma range_additional_seen:
  "range_additional os t0 as seen dirs0 tm0 = Inr (adds', dirs, tm) \<Longrightarrow> set seen \<subseteq> set adds'"
proof (induction as arbitrary: seen dirs0 tm0)
  case Nil
  then show ?case by simp
next
  case (Cons y ys)
  from Cons.prems obtain q where
    "range_additional os t0 ys (seen @ [y\<lparr>path := q\<rparr>]) (dirs0 @ [q])
        (tm0(q \<mapsto> stoppedTimer t0 (Callback (cb y)))) = Inr (adds', dirs, tm)"
    by (auto split: sum.splits if_splits)
  from Cons.IH [OF this] show ?case by simp
qed

lemma range_additional_self:
  "range_additional os t0 as seen dirs0 tm0 = Inr (adds', dirs, tm) \<Longrightarrow>
   tm0 b = Some x \<Longrightarrow> b \<notin> path ` set adds' \<Longrightarrow> tm b = Some x"
proof (induction as arbitrary: seen dirs0 tm0)
  case Nil
  then show ?case by simp
next
  case (Cons y ys)
  from Cons.prems(1) obtain q where
    r: "range_additional os t0 ys (seen @ [y\<lparr>path := q\<rparr>]) (dirs0 @ [q])
          (tm0(q \<mapsto> stoppedTimer t0 (Callback (cb y)))) = Inr (adds', dirs, tm)"
    by (auto split: sum.splits if_splits)
  from range_additional_seen [OF r] have "y\<lparr>path := q\<rparr> \<in> set adds'" by simp
  then have "q \<in> path ` set adds'" by force
  with Cons.prems(3) have "q \<noteq> b" by auto
  then have "(tm0(q \<mapsto> stoppedTimer t0 (Callback (cb y)))) b = Some x"
    using Cons.prems(2) by simp
  from Cons.IH [OF r this Cons.prems(3)] show ?case .
qed

text \<open>
  Claim C9, as amended. A write or create event named like the executable, whose name
  also has the path of an additional directory as a prefix, arms both timers with the
  same delay: the one of the executable (which runs \<open>Exec\<close>, unless an additional
  directory has the very path of the executable) and the one of the directory, which
  runs its callback. The test for the executable comes first, and it excludes nothing.
\<close>

theorem both_timers_armed:
  assumes su: "at (Do_main os t0 adds st0) = AtDone"
    and st: "st = after (Do_main os t0 adds st0)"
    and tr: "trigger e" and self: "Name e = binSelf st"
    and a: "a \<in> set (additional st)" and pre: "HasPrefix (Name e) (path a)"
  shows "\<exists>st' n. handle_event now st e = Some st' \<and>
           pending_at st' (binSelf st) = Some (now + 100 * Millisecond, binSelf st, fn_of st (binSelf st)) \<and>
           pending_at st' (path a) = Some (now + 100 * Millisecond, path a, Callback n) \<and>
           (binSelf st \<notin> path ` set (additional st) \<longrightarrow> fn_of st (binSelf st) = Restart)"
proof -
  have ok: "init_ok (binSelf st) (additional st) (timers st)"
    unfolding st by (rule Do_main_init_ok [OF su])
  have cov: "covered st" by (rule init_ok_covered [OF ok])
  from init_ok_callback [OF ok a] obtain n where n: "fn_of st (path a) = Callback n" by blast
  have m1: "matches (binSelf st) (additional st) e (binSelf st)" using self by (simp add: matches_def)
  have m2: "matches (binSelf st) (additional st) e (path a)" using a pre by (auto simp: matches_def)
  let ?st' = "st\<lparr>timers := rearm now (matches (binSelf st) (additional st) e) (timers st)\<rparr>"
  have he: "handle_event now st e = Some ?st'" by (rule handle_event_rearm [OF cov tr])
  from handle_event_arms [OF cov tr m1, of now] he
  have p1: "pending_at ?st' (binSelf st) = Some (now + 100 * Millisecond, binSelf st, fn_of st (binSelf st))"
    by simp
  from handle_event_arms [OF cov tr m2, of now] he n
  have p2: "pending_at ?st' (path a) = Some (now + 100 * Millisecond, path a, Callback n)"
    by simp
  have r: "binSelf st \<notin> path ` set (additional st) \<longrightarrow> fn_of st (binSelf st) = Restart"
  proof
    assume ni: "binSelf st \<notin> path ` set (additional st)"
    from Do_main_AtDone [OF su] obtain b adds' dirs tm where
      ra: "range_additional os t0 adds [] [filepath_Dir os b] [b \<mapsto> stoppedTimer t0 Restart]
             = Inr (adds', dirs, tm)"
      and e: "binSelf st = b" "additional st = adds'" "timers st = tm"
      unfolding st by blast
    have "tm b = Some (stoppedTimer t0 Restart)"
      using range_additional_self [OF ra] ni e by simp
    then show "fn_of st (binSelf st) = Restart" using e by (simp add: fn_of_def)
  qed
  show ?thesis using he p1 p2 r by blast
qed

text \<open>
  Claim C10. A write or create event whose name is the absolute path of an additional
  directory followed by any characters at all passes the prefix test, and the timer of
  that directory, which runs its callback, is armed with the delay of 100 ms.
\<close>

theorem raw_prefix_arms:
  assumes su: "at (Do_main os t0 adds st0) = AtDone"
    and st: "st = after (Do_main os t0 adds st0)"
    and tr: "trigger e" and a: "a \<in> set (additional st)" and pre: "Name e = path a @ rest"
  shows "HasPrefix (Name e) (path a) \<and>
         (\<exists>st' n. handle_event now st e = Some st' \<and>
            pending_at st' (path a) = Some (now + 100 * Millisecond, path a, Callback n))"
proof
  show hp: "HasPrefix (Name e) (path a)" using pre by (simp add: HasPrefix_def)
  have ok: "init_ok (binSelf st) (additional st) (timers st)"
    unfolding st by (rule Do_main_init_ok [OF su])
  have cov: "covered st" by (rule init_ok_covered [OF ok])
  from init_ok_callback [OF ok a] obtain n where n: "fn_of st (path a) = Callback n" by blast
  have m: "matches (binSelf st) (additional st) e (path a)" using a hp by (auto simp: matches_def)
  from handle_event_arms [OF cov tr m, of now] n
  show "\<exists>st' n. handle_event now st e = Some st' \<and>
            pending_at st' (path a) = Some (now + 100 * Millisecond, path a, Callback n)"
    by auto
qed

section \<open>The restart protocol\<close>

lemma self_update_Close [simp]: "self (os\<lparr>watcher_Close := r\<rparr>) = self os"
  by (simp add: self_def split: list.splits)

text \<open>
  Claim C4. When the path of the executable is there (cached in \<open>binSelf\<close>, or resolved
  by \<open>self\<close> when the cache is empty) the calls of \<open>Exec\<close> are, in this order: the
  close of the watcher if there is one, the hook if one is registered, and the image
  replacement. What the close returns (\<open>r\<close>, an error or not) changes nothing of what
  follows.
\<close>

theorem Exec_order:
  assumes "(if binSelf st = [] then self os else Ok (binSelf st)) = Ok execName"
    and "os_Args os = a0 # rest"
  shows "fst (Exec (os\<lparr>watcher_Close := r\<rparr>) st) =
           (if closeWatcher st then [CloseCall r] else []) @
           (if OnExec st then [OnExecCall] else []) @
           [SyscallExecCall execName (execName # rest) (os_Environ os)]"
  using assms by (simp add: Exec_def Let_def split: if_splits)

text \<open>
  Claim C5. Whenever \<open>Exec\<close> calls the image replacement, the path it passes is the
  resolved path of the executable, the argument vector is that path followed by
  \<open>os.Args[1:]\<close>, and the environment is \<open>os.Environ()\<close>.
\<close>

theorem Exec_argv_env:
  assumes "SyscallExecCall n argv env \<in> set (fst (Exec os st))"
  shows "(if binSelf st = [] then self os else Ok (binSelf st)) = Ok n \<and>
         os_Args os \<noteq> [] \<and> argv = n # drop 1 (os_Args os) \<and> env = os_Environ os"
  using assms
  by (auto simp: Exec_def Let_def split: if_splits result.splits list.splits)

text \<open>
  Claim C6. With an empty cache and a failing \<open>self\<close>, \<open>Exec\<close> panics with "cannot
  restart: cannot find self" and the error, before any other call; and when the image
  replacement returns an error, \<open>Exec\<close> panics with "cannot restart" and that error.
\<close>

theorem Exec_failure_panics:
  "(binSelf st = [] \<and> self os = Err e \<longrightarrow> Exec os st = ([], Panicked (CannotFindSelf e))) \<and>
   ((if binSelf st = [] then self os else Ok (binSelf st)) = Ok n \<and> os_Args os \<noteq> [] \<and>
    syscall_Exec os n (n # drop 1 (os_Args os)) (os_Environ os) = Some e' \<longrightarrow>
      snd (Exec os st) = Panicked (CannotRestart e'))"
  by (auto simp: Exec_def Let_def split: if_splits result.splits list.splits)

section \<open>Concrete runs\<close>

lemmas ex_defs = os_ex_def st_ex_def tpl_def write_app_def self_def IsAbs_def HasPrefix_def
  Write_def Create_def Remove_def Rename_def Chmod_def trigger_def Has_def Millisecond_def make_chan_def

lemma ex_at: "at (Do_main os_ex 0 [tpl] st_ex) = AtDone"
  by (simp add: Do_main_def Let_def ex_defs)

lemma ex_binSelf: "binSelf ready = ''/srv/app''"
  by (simp add: ready_def Do_main_def Let_def ex_defs)

lemma ex_additional: "additional ready = [tpl]"
  by (simp add: ready_def Do_main_def Let_def ex_defs)

lemma ex_fn: "fn_of ready ''/srv/app'' = Restart"
  by (simp add: ready_def fn_of_def Do_main_def Let_def ex_defs)

lemmas ex2_defs = ex_defs os_in_def write_in_def create_near_def other_kinds_def os_full_def
  os_limit_def missing_def os_rel_def os_noexec_def hooked_def ready_def

lemmas run_defs = Do_def Do_main_def Let_def advance_def restart_at_def due_def pending_def
  pending_at_def keys_def expire_def receive_def handle_event_def Reset_at_def Reset_def
  stoppedTimer_def Stop_def AfterFunc_def recv_def List.map_filter_def relpath_def TrimLeft_def

lemma ex_burst:
  "burst_on ''/srv/app'' [tpl] ''/srv/app'' [(200 * Millisecond, write_app), (210 * Millisecond, write_app)]"
  by (simp add: burst_on_def matches_def ex_defs)

lemma ex_burst_tpl:
  "burst_on ''/srv/app'' [tpl] ''/a/tpl'' [(0, create_near), (50 * Millisecond, create_near)]"
  by (simp add: burst_on_def matches_def ex2_defs)

text \<open>
  After an event near \<open>/a/tpl\<close> and its callback, two writes of the executable 10 ms apart
  and then silence: one restart, 100 ms after the second write. And two creates under the
  prefix \<open>/a/tpl\<close> 50 ms apart: one callback, 100 ms after the second.
\<close>

theorem debounce_burst_witness:
  "on_key ''/srv/app''
     (fired (final (Do os_ex 0 [tpl] st_ex
        ([(0, EventsRecv create_near)] @
         events_of [(200 * Millisecond, write_app), (210 * Millisecond, write_app)])
        (400 * Millisecond)))) =
     [(310 * Millisecond, ''/srv/app'', Restart)] \<and>
   on_key ''/a/tpl''
     (fired (final (Do os_ex 0 [tpl] st_ex
        ([] @ events_of [(0, create_near), (50 * Millisecond, create_near)]) (400 * Millisecond)))) =
     [(150 * Millisecond, ''/a/tpl'', Callback 7)]"
proof -
  let ?b1 = "final (Do os_ex 0 [tpl] st_ex [(0, EventsRecv create_near)] (200 * Millisecond))"
  let ?b2 = "final (Do os_ex 0 [tpl] st_ex [] 0)"
  have b1: "process ?b1 = Alive" "loop ?b1 = Running" "on_key ''/srv/app'' (fired ?b1) = []"
    by (simp_all add: run_defs ex2_defs on_key_def)
  have b2: "process ?b2 = Alive" "loop ?b2 = Running" "on_key ''/a/tpl'' (fired ?b2) = []"
    "pending_at (cfg_state ?b2) ''/srv/app'' = None"
    by (simp_all add: run_defs ex2_defs on_key_def)
  have n: "\<forall>(t, e) \<in> set [(0, create_near), (50 * Millisecond, create_near)]. Name e \<noteq> ''/srv/app''"
    by (simp add: ex2_defs)
  have fn: "fn_of ready ''/a/tpl'' = Callback 7"
    by (simp add: ready_def fn_of_def Do_main_def Let_def ex_defs)
  have 1: "on_key ''/srv/app''
     (fired (final (Do os_ex 0 [tpl] st_ex
        ([(0, EventsRecv create_near)] @
         events_of [(200 * Millisecond, write_app), (210 * Millisecond, write_app)])
        (400 * Millisecond)))) =
     [(310 * Millisecond, ''/srv/app'', Restart)]"
    using debounce_burst [of os_ex 0 "[tpl]" st_ex ready "''/srv/app''"
        "[(200 * Millisecond, write_app), (210 * Millisecond, write_app)]" ?b1
        "[(0, EventsRecv create_near)]" "400 * Millisecond"]
      ex_at ex_burst b1
    by (simp add: ex_binSelf ex_additional ex_fn ready_def [symmetric] Millisecond_def)
  have 2: "on_key ''/a/tpl''
     (fired (final (Do os_ex 0 [tpl] st_ex
        ([] @ events_of [(0, create_near), (50 * Millisecond, create_near)]) (400 * Millisecond)))) =
     [(150 * Millisecond, ''/a/tpl'', Callback 7)]"
    using debounce_burst [of os_ex 0 "[tpl]" st_ex ready "''/a/tpl''"
        "[(0, create_near), (50 * Millisecond, create_near)]" ?b2 "[]" "400 * Millisecond"]
      ex_at ex_burst_tpl b2 n fn
    by (simp add: ex_binSelf ex_additional ready_def [symmetric] Millisecond_def)
  show ?thesis using 1 2 by blast
qed

text \<open>
  Claim C1 as stated fails: the executable \<open>/a/tpl/app\<close> lies in the additional directory
  \<open>/a/tpl\<close>. A write of the executable and, 50 ms later, a write of \<open>/a/tpl/x\<close> are a
  burst of two qualifying events on \<open>/a/tpl\<close>; the restart runs 100 ms after the first
  and replaces the process, and the callback of \<open>/a/tpl\<close> never runs.
\<close>

theorem restart_cuts_burst_short:
  "on_key ''/a/tpl''
     (fired (final (Do os_in 0 [tpl] st_ex
        (events_of [(0, write_in), (50 * Millisecond, write_x)]) (500 * Millisecond)))) = [] \<and>
   process (final (Do os_in 0 [tpl] st_ex
        (events_of [(0, write_in), (50 * Millisecond, write_x)]) (500 * Millisecond))) =
     Ended (100 * Millisecond) Replaced"
  by (simp add: run_defs ex2_defs write_x_def events_of_def on_key_def Exec_def)

theorem Do_blocks_forever_witness:
  "at (Do_main os_ex 0 [tpl] st_ex) = AtDone \<and>
   status (Do os_ex 0 [tpl] st_ex [(5, EventsClosed)] 10) = BlockedAtDone \<and>
   loop (final (Do os_ex 0 [tpl] st_ex [(5, EventsClosed)] 10)) = Exited"
proof -
  have "process (final (Do os_ex 0 [tpl] st_ex [(5, EventsClosed)] 10)) = Alive"
    by (simp add: run_defs ex2_defs)
  then show ?thesis
    using Do_blocks_forever [of os_ex 0 "[tpl]" st_ex "[(5, EventsClosed)]" 10] ex_at by simp
qed

text \<open>
  Claim C2 as stated fails: the errors channel is closed at instant 7, the goroutine has
  returned, and \<open>Do\<close> is still blocked at its receive.
\<close>

theorem stream_closed_Do_still_blocked:
  "loop (final (Do os_ex 0 [] st_ex [(7, ErrorsClosed)] 7)) = Exited \<and>
   status (Do os_ex 0 [] st_ex [(7, ErrorsClosed)] 7) = BlockedAtDone"
  by (simp add: run_defs ex2_defs)

text \<open>
  An event on the executable itself whose kind is remove, rename and chmod together.
\<close>

theorem other_kinds_never_arm_witness:
  "\<not> Has other_kinds Write \<and> \<not> Has other_kinds Create \<and>
   handle_event 5 ready other_kinds = Some ready"
proof -
  have h: "\<not> Has other_kinds Write" "\<not> Has other_kinds Create"
    by (simp_all add: ex2_defs)
  show ?thesis using other_kinds_never_arm [OF h, of 5 ready] h by simp
qed

theorem Exec_order_witness:
  "fst (Exec (os_ex\<lparr>watcher_Close := Some (OSError ''bad file descriptor'')\<rparr>) hooked) =
     [CloseCall (Some (OSError ''bad file descriptor'')), OnExecCall,
      SyscallExecCall ''/srv/app'' [''/srv/app'', ''-v''] [''HOME=/root'']]"
proof -
  have 1: "(if binSelf hooked = [] then self os_ex else Ok (binSelf hooked)) = Ok ''/srv/app''"
    by (simp add: run_defs ex2_defs)
  have 2: "os_Args os_ex = ''/srv/app'' # [''-v'']" by (simp add: os_ex_def)
  have 3: "closeWatcher hooked" "OnExec hooked" "os_Environ os_ex = [''HOME=/root'']"
    by (simp_all add: run_defs ex2_defs)
  show ?thesis using Exec_order [OF 1 2, of "Some (OSError ''bad file descriptor'')"] 3 by simp
qed

theorem Exec_argv_env_witness:
  "SyscallExecCall ''/srv/app'' [''/srv/app'', ''-v''] [''HOME=/root''] \<in> set (fst (Exec os_ex hooked)) \<and>
   [''/srv/app'', ''-v''] = ''/srv/app'' # drop 1 (os_Args os_ex) \<and>
   [''HOME=/root''] = os_Environ os_ex"
proof -
  have m: "SyscallExecCall ''/srv/app'' [''/srv/app'', ''-v''] [''HOME=/root''] \<in> set (fst (Exec os_ex hooked))"
    by (simp add: Exec_def run_defs ex2_defs)
  show ?thesis using Exec_argv_env [OF m] m by simp
qed

theorem Exec_failure_panics_witness:
  "Exec os_rel st_ex =
     ([], Panicked (CannotFindSelf (CannotGetPathToBinary ''app''
            (OSError ''readlink /proc/self/exe: permission denied'')))) \<and>
   snd (Exec os_noexec hooked) = Panicked (CannotRestart (OSError ''exec format error''))"
proof -
  have a: "binSelf st_ex = []"
    "self os_rel = Err (CannotGetPathToBinary ''app'' (OSError ''readlink /proc/self/exe: permission denied''))"
    by (simp_all add: ex2_defs)
  have b: "(if binSelf hooked = [] then self os_noexec else Ok (binSelf hooked)) = Ok ''/srv/app''"
    "os_Args os_noexec \<noteq> []"
    "syscall_Exec os_noexec ''/srv/app'' (''/srv/app'' # drop 1 (os_Args os_noexec)) (os_Environ os_noexec)
       = Some (OSError ''exec format error'')"
    by (simp_all add: run_defs ex2_defs)
  show ?thesis
    using Exec_failure_panics [of st_ex os_rel
        "CannotGetPathToBinary ''app'' (OSError ''readlink /proc/self/exe: permission denied'')"]
      Exec_failure_panics [of hooked os_noexec _ "''/srv/app''" "OSError ''exec format error''"]
      a b by simp
qed

theorem invalid_dir_no_watch_witness:
  "status (Do os_ex 0 [tpl, missing] st_ex [(5, EventsRecv write_app)] 10) =
     Returned (Some (StatFailed (OSError ''no such file or directory''))) \<and>
   main_calls (Do os_ex 0 [tpl, missing] st_ex [(5, EventsRecv write_app)] 10) = [NewWatcherCall] \<and>
   loop (final (Do os_ex 0 [tpl, missing] st_ex [(5, EventsRecv write_app)] 10)) = NotStarted"
proof -
  have 1: "fsnotify_NewWatcher os_ex = None" "self os_ex = Ok ''/srv/app''"
    by (simp_all add: ex2_defs)
  have "invalid_dir os_ex missing" by (simp add: invalid_dir_def ex2_defs)
  then have 2: "\<exists>a \<in> set [tpl, missing]. invalid_dir os_ex a" by simp
  have 3: "status (Do os_ex 0 [tpl, missing] st_ex [(5, EventsRecv write_app)] 10) =
     Returned (Some (StatFailed (OSError ''no such file or directory'')))"
    by (simp add: status_Do Do_main_def Let_def ex2_defs)
  show ?thesis
    using invalid_dir_no_watch [OF 1 2, of 0 st_ex "[(5, EventsRecv write_app)]" 10] 3 by auto
qed

text \<open>
  Claim C8 as stated fails: adding \<open>/a/tpl\<close> fails, \<open>Do\<close> returns the error, the
  directory of the executable has been added, and the goroutine is running.
\<close>

theorem failed_subscription_goroutine_running:
  "status (Do os_full 0 [tpl] st_ex [] 0) =
     Returned (Some (CannotAddToWatcher ''/a/tpl'' (OSError ''no space left on device''))) \<and>
   main_calls (Do os_full 0 [tpl] st_ex [] 0) = [NewWatcherCall, GoLoop, AddCall ''/srv'', AddCall ''/a/tpl''] \<and>
   loop (final (Do os_full 0 [tpl] st_ex [] 0)) = Running"
  by (simp add: run_defs ex2_defs)

theorem failed_subscription_leaves_goroutine_witness:
  "status (Do os_limit 0 [] st_ex [(5, EventsRecv write_app)] 10) =
     Returned (Some (CannotAddToWatcher ''/srv'' (OSError ''too many open files''))) \<and>
   GoLoop \<in> set (main_calls (Do os_limit 0 [] st_ex [(5, EventsRecv write_app)] 10)) \<and>
   loop (final (Do os_limit 0 [] st_ex [(5, EventsRecv write_app)] 10)) = Running"
proof -
  have 1: "fsnotify_NewWatcher os_limit = None" "self os_limit = Ok ''/srv/app''"
    by (simp_all add: ex2_defs)
  have 2: "range_additional os_limit 0 [] [] [filepath_Dir os_limit ''/srv/app'']
             [''/srv/app'' \<mapsto> stoppedTimer 0 Restart]
           = Inr ([], [''/srv''], [''/srv/app'' \<mapsto> stoppedTimer 0 Restart])"
    by (simp add: ex2_defs)
  have 3: "\<exists>d \<in> set [''/srv'']. watcher_Add os_limit d \<noteq> None"
    by (simp add: ex2_defs)
  have 4: "\<forall>(t, it) \<in> set [(5, EventsRecv write_app)]. it \<noteq> ErrorsClosed \<and> it \<noteq> EventsClosed"
    by simp
  have 5: "watcher_Add os_limit ''/srv'' = Some (OSError ''too many open files'')"
    by (simp add: ex2_defs)
  show ?thesis
    using failed_subscription_leaves_goroutine [OF 1 2 3 4, of st_ex 10] 5 by auto
qed

text \<open>
  Claim C9 as stated fails: the executable \<open>/a/tpl/app\<close> lies in the additional
  directory \<open>/a/tpl\<close>; after one write of the executable the callback of the directory is
  pending as well as the restart.
\<close>

theorem executable_event_arms_callback_too:
  "pending (cfg_state (final (Do os_in 0 [tpl] st_ex [(5, EventsRecv write_in)] 5))) =
     [(100000005, ''/a/tpl/app'', Restart), (100000005, ''/a/tpl'', Callback 7)]"
  by (simp add: run_defs ex2_defs)

theorem both_timers_armed_witness:
  "\<exists>st' n. handle_event 5 (after (Do_main os_in 0 [tpl] st_ex)) write_in = Some st' \<and>
     pending_at st' ''/a/tpl/app'' = Some (100000005, ''/a/tpl/app'', Restart) \<and>
     pending_at st' ''/a/tpl'' = Some (100000005, ''/a/tpl'', Callback n)"
proof -
  let ?st = "after (Do_main os_in 0 [tpl] st_ex)"
  have 1: "at (Do_main os_in 0 [tpl] st_ex) = AtDone"
    by (simp add: Do_main_def Let_def ex2_defs)
  have 2: "trigger write_in" by (simp add: ex2_defs)
  have b: "binSelf ?st = ''/a/tpl/app''" and a: "additional ?st = [tpl]"
    by (simp_all add: Do_main_def Let_def ex2_defs)
  have 3: "Name write_in = binSelf ?st" using b by (simp add: write_in_def)
  have 4: "tpl \<in> set (additional ?st)" using a by simp
  have 5: "HasPrefix (Name write_in) (path tpl)" by (simp add: ex2_defs)
  have 6: "binSelf ?st \<notin> path ` set (additional ?st)" using a b by (simp add: tpl_def)
  have 7: "path tpl = ''/a/tpl''" by (simp add: tpl_def)
  from both_timers_armed [OF 1 refl 2 3 4 5, of 5] 6
  show ?thesis unfolding b 7 by (auto simp: Millisecond_def)
qed

text \<open>
  The event \<open>/a/tplX/f\<close> against the directory \<open>/a/tpl\<close>.
\<close>

theorem raw_prefix_arms_witness:
  "HasPrefix ''/a/tplX/f'' ''/a/tpl'' \<and>
   (\<exists>st' n. handle_event 5 ready create_near = Some st' \<and>
      pending_at st' ''/a/tpl'' = Some (100000005, ''/a/tpl'', Callback n))"
proof -
  have 1: "trigger create_near" by (simp add: ex2_defs)
  have 2: "tpl \<in> set (additional ready)" by (simp add: ex_additional)
  have 3: "Name create_near = path tpl @ ''X/f''" by (simp add: ex2_defs)
  have 4: "Name create_near = ''/a/tplX/f''" "path tpl = ''/a/tpl''" by (simp_all add: ex2_defs)
  from raw_prefix_arms [OF ex_at ready_def 1 2 3, of 5]
  show ?thesis unfolding 4 by (simp add: Millisecond_def)
qed

end
